theory Spec2Isabelle
  imports Main "HOL-Library.Word"
begin

section \<open>The OIG election contract: data model\<close>

text \<open>
  The contract of \<^verbatim>\<open>oig.cpp\<close> / \<^verbatim>\<open>oig.hpp\<close> is embedded as functions on an explicit
  store. An account \<^verbatim>\<open>name\<close> is its 64-bit value, a \<^verbatim>\<open>time_point_sec\<close> its 32-bit number
  of seconds, the \<^verbatim>\<open>uint8_t\<close> fields \<^verbatim>\<open>state\<close> and \<^verbatim>\<open>nom_count\<close> are 8-bit words, so that
  \<^verbatim>\<open>++\<close> and \<^verbatim>\<open>--\<close> wrap as they do in the source.
\<close>

type_synonym name = "64 word"
type_synonym time_point_sec = "32 word"

text \<open>\<^verbatim>\<open>TABLE election\<close> (the singleton row).\<close>

record election =
  ballot :: name
  state :: "8 word"
  title :: string
  description :: string
  content :: string
  nom_count :: "8 word"
  voter :: "name list"
  synced_voter :: "name list"
  nmn_open :: time_point_sec
  nmn_close :: time_point_sec
  vote_open :: time_point_sec
  vote_close :: time_point_sec

text \<open>\<^verbatim>\<open>TABLE reggedvoter\<close>, \<^verbatim>\<open>TABLE nomination\<close>, \<^verbatim>\<open>TABLE nominee\<close>. The treasury symbol
  of a \<^verbatim>\<open>reggedvoter\<close> row is always \<^verbatim>\<open>VOTE_SYM\<close>; it is kept as text.\<close>

record reggedvoter =
  referrer :: name
  treasury :: string
  rv_voter :: name

record nomination =
  nominee :: name
  accepted :: bool

record nominee_info =
  owner :: name
  pname :: string
  descriptor :: string
  picture :: string
  telegram :: string
  twitter :: string
  wechat :: string

text \<open>
  The persisted state of the contract: the election singleton (absent until first written),
  the nominations and nominees tables in the iteration order of their primary keys, and the
  \<^verbatim>\<open>reggedvoters\<close> tables, one per voter scope, each holding at most the row whose primary
  key is the contract itself.
\<close>

record sys =
  elections :: "election option"
  nominations :: "nomination list"
  nominees :: "nominee_info list"
  reggedvoters :: "name \<Rightarrow> reggedvoter option"

text \<open>
  What the chain supplies to one action: the contract's own account (\<^verbatim>\<open>get_self()\<close>), the
  accounts that authorised the action (\<^verbatim>\<open>require_auth\<close>), the block time
  (\<^verbatim>\<open>current_time_point()\<close>) and the existing accounts (\<^verbatim>\<open>is_account\<close>).
\<close>

record env =
  self :: name
  auths :: "name set"
  now :: time_point_sec
  accounts :: "name set"

text \<open>Inline actions sent to \<^verbatim>\<open>decide\<close> and \<^verbatim>\<open>eosio.token\<close>; only the arguments that are
  not prefilled constants of the argument structs are kept.\<close>

datatype inline_action =
    Decide_regvoter name
  | Token_transfer
  | Decide_newballot name name "name list"
  | Decide_editdetails name string string string
  | Decide_togglebal name
  | Decide_openvoting name time_point_sec
  | Decide_closevoting name
  | Decide_sync name
  | Decide_rebalance name name

text \<open>An aborted action: a failed \<^verbatim>\<open>require_auth\<close>, \<^verbatim>\<open>singleton::get\<close> on an absent row,
  or a failed \<^verbatim>\<open>check\<close> with its message.\<close>

datatype error =
    Missing_auth name
  | Singleton_missing
  | Check_failed string

type_synonym result = "error + (sys \<times> inline_action list)"

text \<open>Sequencing of two parts of one action: the first error aborts, the inline actions
  accumulate in order.\<close>

definition and_then :: "result \<Rightarrow> (sys \<Rightarrow> result) \<Rightarrow> result" where
  "and_then r f =
     (case r of
        Inl e \<Rightarrow> Inl e
      | Inr (s, a) \<Rightarrow> (case f s of Inl e \<Rightarrow> Inl e | Inr (s', a') \<Rightarrow> Inr (s', a @ a')))"

text \<open>The state a transaction leaves behind: an aborted action changes nothing.\<close>

definition commit :: "result \<Rightarrow> sys \<Rightarrow> sys" where
  "commit r s = (case r of Inl e \<Rightarrow> s | Inr (s', a) \<Rightarrow> s')"

text \<open>\<^verbatim>\<open>name("oig")\<close>: the characters o, i, g have the 5-bit codes 20, 14, 12 and fill the
  value from the top.\<close>

definition name_oig :: name where
  "name_oig = push_bit 59 20 + push_bit 54 14 + push_bit 49 12"

text \<open>The default-constructed row, as the member initialisers of \<^verbatim>\<open>TABLE election\<close> give it.\<close>

definition default_election :: election where
  "default_election =
     \<lparr>ballot = name_oig, state = 0, title = [], description = [], content = [],
      nom_count = 0, voter = [], synced_voter = [],
      nmn_open = 0, nmn_close = 0, vote_open = 0, vote_close = 0\<rparr>"

text \<open>A freshly deployed contract: nothing persisted.\<close>

definition fresh :: sys where
  "fresh = \<lparr>elections = None, nominations = [], nominees = [], reggedvoters = (\<lambda>v. None)\<rparr>"

subsection \<open>Table primitives\<close>

fun find_nomination :: "name \<Rightarrow> nomination list \<Rightarrow> nomination option" where
  "find_nomination k [] = None"
| "find_nomination k (r # rs) = (if nominee r = k then Some r else find_nomination k rs)"

fun find_nominee :: "name \<Rightarrow> nominee_info list \<Rightarrow> nominee_info option" where
  "find_nominee k [] = None"
| "find_nominee k (r # rs) = (if owner r = k then Some r else find_nominee k rs)"

text \<open>\<^verbatim>\<open>emplace\<close> puts the row at its place in primary-key order.\<close>

definition emplace_nomination :: "nomination \<Rightarrow> nomination list \<Rightarrow> nomination list" where
  "emplace_nomination r t = insort_key nominee r t"

definition emplace_nominee :: "nominee_info \<Rightarrow> nominee_info list \<Rightarrow> nominee_info list" where
  "emplace_nominee r t = insort_key owner r t"

definition erase_nomination :: "name \<Rightarrow> nomination list \<Rightarrow> nomination list" where
  "erase_nomination k t = filter (\<lambda>r. nominee r \<noteq> k) t"

definition erase_nominee :: "name \<Rightarrow> nominee_info list \<Rightarrow> nominee_info list" where
  "erase_nominee k t = filter (\<lambda>r. owner r \<noteq> k) t"

definition modify_nomination ::
  "name \<Rightarrow> (nomination \<Rightarrow> nomination) \<Rightarrow> nomination list \<Rightarrow> nomination list" where
  "modify_nomination k f t = map (\<lambda>r. if nominee r = k then f r else r) t"

definition modify_nominee ::
  "name \<Rightarrow> (nominee_info \<Rightarrow> nominee_info) \<Rightarrow> nominee_info list \<Rightarrow> nominee_info list" where
  "modify_nominee k f t = map (\<lambda>r. if owner r = k then f r else r) t"

text \<open>The loop \<^verbatim>\<open>while (it != t.end()) it = t.erase(it);\<close> of \<^verbatim>\<open>cleanup\<close>.\<close>

fun erase_all :: "'a list \<Rightarrow> 'a list" where
  "erase_all [] = []"
| "erase_all (r # rs) = erase_all rs"

section \<open>The actions\<close>

subsection \<open>\<^verbatim>\<open>init\<close>\<close>

text \<open>\<^verbatim>\<open>get_or_create\<close> reads the row, or the default-constructed row when none is stored.\<close>

definition init :: "env \<Rightarrow> sys \<Rightarrow> result" where
  "init c s =
     (if self c \<notin> auths c then Inl (Missing_auth (self c))
      else
        let elect = (case elections s of None \<Rightarrow> default_election | Some e \<Rightarrow> e) in
        if state elect \<noteq> 10 then Inl (Check_failed ''Contract already initialized.'')
        else Inr (s\<lparr>elections := Some (elect\<lparr>state := 0\<rparr>)\<rparr>, [Decide_regvoter (self c)]))"

subsection \<open>\<^verbatim>\<open>inaugurate\<close>\<close>

definition inaugurate ::
  "env \<Rightarrow> string \<Rightarrow> string \<Rightarrow> string \<Rightarrow> time_point_sec \<Rightarrow> time_point_sec \<Rightarrow>
   time_point_sec \<Rightarrow> time_point_sec \<Rightarrow> bool \<Rightarrow> sys \<Rightarrow> result" where
  "inaugurate c ttl dsc cnt n_open n_close v_open v_close cancel s =
     (if self c \<notin> auths c then Inl (Missing_auth (self c))
      else
        let elect = (case elections s of None \<Rightarrow> default_election | Some e \<Rightarrow> e) in
        if state elect = 10 then Inl (Check_failed ''Contract not initialized.'')
        else if cancel then
          (if \<not> state elect \<le> 2 then Inl (Check_failed ''Can't cancel once ballot is created.'')
           else if state elect = 0 then Inl (Check_failed ''No Election running.'')
           else Inr (s\<lparr>elections := Some (elect\<lparr>ballot := ballot elect - 1, state := 6\<rparr>)\<rparr>, []))
        else
          (if state elect = 5 then Inl (Check_failed ''Cleanup required.'')
           else if state elect = 6 then Inl (Check_failed ''Cleanup in progress.'')
           else if state elect \<noteq> 0 then Inl (Check_failed ''Election already running.'')
           else if ttl = [] then Inl (Check_failed ''title required'')
           else if dsc = [] then Inl (Check_failed ''description required'')
           else if \<not> now c \<le> n_open then Inl (Check_failed ''dates need to be in the future'')
           else if \<not> n_open < n_close
             then Inl (Check_failed ''nomination duration needs to be positive'')
           else if \<not> n_close < v_open
             then Inl (Check_failed ''voting period can't overlap with nomination period'')
           else if \<not> v_open < v_close
             then Inl (Check_failed ''voting duration needs to be positive'')
           else Inr (s\<lparr>elections := Some (elect\<lparr>ballot := ballot elect + 1, state := 1,
                          title := ttl, description := dsc, content := cnt,
                          nmn_open := n_open, nmn_close := n_close,
                          vote_open := v_open, vote_close := v_close\<rparr>)\<rparr>, [])))"

subsection \<open>\<^verbatim>\<open>syncvoter\<close>, \<^verbatim>\<open>cleanup\<close> and \<^verbatim>\<open>state_refresh\<close>\<close>

definition syncvoter :: "name \<Rightarrow> name \<Rightarrow> inline_action list" where
  "syncvoter v b = [Decide_sync v, Decide_rebalance v b]"

text \<open>The batch loop of state 4, with its counter \<^verbatim>\<open>i\<close> (which stays below 101, so the
  \<^verbatim>\<open>uint8_t\<close> never wraps).\<close>

function sync_loop :: "nat \<Rightarrow> election \<Rightarrow> election \<times> inline_action list" where
  "sync_loop i elect =
     (if voter elect \<noteq> [] \<and> i < 100 then
        let v = last (voter elect);
            elect' = elect\<lparr>synced_voter := synced_voter elect @ [v],
                           voter := butlast (voter elect)\<rparr>
        in (case sync_loop (i + 1) elect' of
              (elect'', acts) \<Rightarrow> (elect'', syncvoter v (ballot elect) @ acts))
      else (elect, []))"
  by pat_completeness auto
termination
  by (relation "measure (\<lambda>(i, elect). 100 - i)") auto

declare sync_loop.simps [simp del]

text \<open>The batch loop of \<^verbatim>\<open>cleanup\<close>, bounded by 200.\<close>

function migrate_loop :: "nat \<Rightarrow> election \<Rightarrow> election" where
  "migrate_loop i elect =
     (if voter elect \<noteq> [] \<and> i < 200 then
        migrate_loop (i + 1)
          (elect\<lparr>synced_voter := synced_voter elect @ [last (voter elect)],
                 voter := butlast (voter elect)\<rparr>)
      else elect)"
  by pat_completeness auto
termination
  by (relation "measure (\<lambda>(i, elect). 200 - i)") auto

declare migrate_loop.simps [simp del]

definition cleanup :: "env \<Rightarrow> sys \<Rightarrow> result" where
  "cleanup c s =
     (if self c \<notin> auths c then Inl (Missing_auth (self c))
      else
        (case elections s of
           None \<Rightarrow> Inl Singleton_missing
         | Some elect0 \<Rightarrow>
             let elect = elect0\<lparr>nom_count := 0\<rparr>;
                 elect' =
                   (if synced_voter elect \<noteq> [] then
                      (if voter elect \<noteq> [] then migrate_loop 0 elect
                       else elect\<lparr>voter := synced_voter elect, synced_voter := [], state := 0\<rparr>)
                    else elect)
             in Inr (s\<lparr>nominees := erase_all (nominees s),
                       nominations := erase_all (nominations s),
                       elections := Some elect'\<rparr>, [])))"

text \<open>The loop of state 2 that collects the accepted nominees as ballot options.\<close>

fun ballot_options :: "nomination list \<Rightarrow> name list" where
  "ballot_options [] = []"
| "ballot_options (r # rs) =
     (if accepted r then nominee r # ballot_options rs else ballot_options rs)"

text \<open>\<^verbatim>\<open>state_refresh\<close>. Its \<^verbatim>\<open>uint8_t\<close> return value is discarded by every caller and is not
  modelled; the \<^verbatim>\<open>printf\<close> of the default case has no effect on the store.\<close>

definition state_refresh :: "env \<Rightarrow> sys \<Rightarrow> result" where
  "state_refresh c s =
     (case elections s of
        None \<Rightarrow> Inl Singleton_missing
      | Some elect \<Rightarrow>
          if state elect = 0 then Inr (s, [])
          else if state elect = 1 then
            (if nmn_open elect \<le> now c
             then Inr (s\<lparr>elections := Some (elect\<lparr>state := 2\<rparr>)\<rparr>, [])
             else Inr (s, []))
          else if state elect = 2 then
            (if nmn_close elect \<le> now c then
               let options = ballot_options (nominations s) in
               if 2 \<le> length options then
                 Inr (s\<lparr>elections := Some (elect\<lparr>state := 3\<rparr>)\<rparr>,
                      [Token_transfer,
                       Decide_newballot (ballot elect) (self c) options,
                       Decide_editdetails (ballot elect) (title elect) (description elect)
                         (content elect),
                       Decide_togglebal (ballot elect)])
               else Inr (s, [])
             else Inr (s, []))
          else if state elect = 3 then
            (if vote_open elect \<le> now c
             then Inr (s\<lparr>elections := Some (elect\<lparr>state := 4\<rparr>)\<rparr>,
                       [Decide_openvoting (ballot elect) (vote_close elect)])
             else Inr (s, []))
          else if state elect = 4 then
            (if vote_close elect \<le> now c then
               (case sync_loop 0 elect of
                  (elect', acts) \<Rightarrow>
                    if voter elect' = []
                    then Inr (s\<lparr>elections := Some (elect'\<lparr>state := 5\<rparr>)\<rparr>,
                              acts @ [Decide_closevoting (ballot elect')])
                    else Inr (s\<lparr>elections := Some elect'\<rparr>, acts))
             else Inr (s, []))
          else if state elect = 5 then Inr (s, [])
          else if state elect = 6 then cleanup c s
          else Inr (s, []))"

subsection \<open>\<^verbatim>\<open>updtstate\<close>, \<^verbatim>\<open>endelection\<close>, \<^verbatim>\<open>setballot\<close>\<close>

definition updtstate :: "env \<Rightarrow> sys \<Rightarrow> result" where
  "updtstate c s = state_refresh c s"

definition endelection_body :: "env \<Rightarrow> sys \<Rightarrow> result" where
  "endelection_body c s =
     (if self c \<notin> auths c then Inl (Missing_auth (self c))
      else
        (case elections s of
           None \<Rightarrow> Inl Singleton_missing
         | Some elect \<Rightarrow>
             if state elect \<noteq> 5 then Inl (Check_failed ''Voting needs to have concluded.'')
             else Inr (s\<lparr>elections := Some (elect\<lparr>state := 6\<rparr>)\<rparr>, [])))"

definition endelection :: "env \<Rightarrow> sys \<Rightarrow> result" where
  "endelection c s = and_then (endelection_body c s) (state_refresh c)"

definition setballot :: "env \<Rightarrow> name \<Rightarrow> sys \<Rightarrow> result" where
  "setballot c bid s =
     (if self c \<notin> auths c then Inl (Missing_auth (self c))
      else
        (case elections s of
           None \<Rightarrow> Inl Singleton_missing
         | Some elect \<Rightarrow> Inr (s\<lparr>elections := Some (elect\<lparr>ballot := bid\<rparr>)\<rparr>, [])))"

subsection \<open>\<^verbatim>\<open>nominate\<close>\<close>

text \<open>The purge loop of the spam prevention: every unaccepted row is erased and the local
  \<^verbatim>\<open>uint8_t count\<close> decremented for it.\<close>

fun purge :: "nomination list \<Rightarrow> 8 word \<Rightarrow> nomination list \<times> 8 word" where
  "purge [] count = ([], count)"
| "purge (r # rs) count =
     (if \<not> accepted r then purge rs (count - 1)
      else (case purge rs count of (rs', count') \<Rightarrow> (r # rs', count')))"

text \<open>Each action that ends with the statement \<^verbatim>\<open>state_refresh();\<close> is written as its
  body, the statements before that call, followed by the call.\<close>

definition nominate_body :: "env \<Rightarrow> name \<Rightarrow> name \<Rightarrow> sys \<Rightarrow> result" where
  "nominate_body c nominator nmnee s =
     (if nominator \<notin> auths c then Inl (Missing_auth nominator)
      else
        (case elections s of
           None \<Rightarrow> Inl Singleton_missing
         | Some elect \<Rightarrow>
             if state elect = 0 then Inl (Check_failed ''No election is currently running.'')
             else if \<not> state elect \<le> 2
               then Inl (Check_failed ''Nomination period has already closed.'')
             else if find_nomination nmnee (nominations s) \<noteq> None
               then Inl (Check_failed ''Nomination already exists.'')
             else if nmnee \<notin> accounts c
               then Inl (Check_failed ''Nominated account must exist.'')
             else
               (case (if 200 < nom_count elect then purge (nominations s) (nom_count elect)
                      else (nominations s, nom_count elect)) of
                  (noms, count) \<Rightarrow>
                    let acc = (nominator = nmnee \<and> count < 150);
                        noms' = emplace_nomination \<lparr>nominee = nmnee, accepted = acc\<rparr> noms
                    in Inr (s\<lparr>nominations := noms',
                              elections := Some (elect\<lparr>nom_count := count + 1\<rparr>)\<rparr>, []))))"

definition nominate :: "env \<Rightarrow> name \<Rightarrow> name \<Rightarrow> sys \<Rightarrow> result" where
  "nominate c nominator nmnee s =
     and_then (nominate_body c nominator nmnee s) (state_refresh c)"

subsection \<open>\<^verbatim>\<open>proclaim\<close>\<close>

definition proclaim_body :: "env \<Rightarrow> name \<Rightarrow> bool \<Rightarrow> sys \<Rightarrow> result" where
  "proclaim_body c nmnee decision s =
     (if nmnee \<notin> auths c then Inl (Missing_auth nmnee)
      else
        (case elections s of
           None \<Rightarrow> Inl Singleton_missing
         | Some elect \<Rightarrow>
             if state elect = 0 then Inl (Check_failed ''No election is currently running.'')
             else if \<not> state elect \<le> 2
               then Inl (Check_failed ''Nomination period has alreaedy closed.'')
             else if find_nomination nmnee (nominations s) = None
               then Inl (Check_failed ''Nomination not found.'')
             else if decision then
               Inr (s\<lparr>nominations :=
                        modify_nomination nmnee (\<lambda>col. col\<lparr>accepted := decision\<rparr>)
                          (nominations s)\<rparr>, [])
             else
               Inr (s\<lparr>nominations := erase_nomination nmnee (nominations s),
                      elections := Some (elect\<lparr>nom_count := nom_count elect - 1\<rparr>),
                      nominees := erase_nominee nmnee (nominees s)\<rparr>, [])))"

definition proclaim :: "env \<Rightarrow> name \<Rightarrow> bool \<Rightarrow> sys \<Rightarrow> result" where
  "proclaim c nmnee decision s =
     and_then (proclaim_body c nmnee decision s) (state_refresh c)"

subsection \<open>\<^verbatim>\<open>nominf\<close>\<close>

definition nominf_body ::
  "env \<Rightarrow> name \<Rightarrow> string \<Rightarrow> string \<Rightarrow> string \<Rightarrow> string \<Rightarrow> string \<Rightarrow> string \<Rightarrow> bool \<Rightarrow>
   sys \<Rightarrow> result" where
  "nominf_body c nmnee nm dsc pic tg tw wc remove s =
     (if nmnee \<notin> auths c then Inl (Missing_auth nmnee)
      else
        (case elections s of
           None \<Rightarrow> Inl Singleton_missing
         | Some elect \<Rightarrow>
             if \<not> state elect \<le> 3 then Inl (Check_failed ''Voting has already commenced.'')
             else
               (case find_nomination nmnee (nominations s) of
                  None \<Rightarrow> Inl (Check_failed ''Account not nominated.'')
                | Some nmne_itr \<Rightarrow>
                    if \<not> accepted nmne_itr then Inl (Check_failed ''Nomination not accepted.'')
                    else if remove then
                      (if find_nominee nmnee (nominees s) = None
                       then Inl (Check_failed ''can't delete non-existing record'')
                       else Inr (s\<lparr>nominees := erase_nominee nmnee (nominees s)\<rparr>, []))
                    else if nm = [] then Inl (Check_failed ''name required'')
                    else if \<not> length nm \<le> 99 then Inl (Check_failed ''name too long'')
                    else if \<not> length dsc \<le> 2000
                      then Inl (Check_failed ''description too long'')
                    else if \<not> length pic \<le> 256 then Inl (Check_failed ''picture too long'')
                    else if pic \<noteq> [] \<and> take 4 pic \<noteq> ''http''
                      then Inl (Check_failed ''picture should begin with http'')
                    else if \<not> length tg \<le> 99 then Inl (Check_failed ''telegram too long'')
                    else if \<not> length tw \<le> 99 then Inl (Check_failed ''twitter too long'')
                    else if \<not> length wc \<le> 99 then Inl (Check_failed ''wechat too long'')
                    else
                      let row = \<lparr>owner = nmnee, pname = nm, descriptor = dsc, picture = pic,
                                 telegram = tg, twitter = tw, wechat = wc\<rparr>
                      in if find_nominee nmnee (nominees s) = None
                         then Inr (s\<lparr>nominees := emplace_nominee row (nominees s)\<rparr>, [])
                         else Inr (s\<lparr>nominees :=
                                       modify_nominee nmnee (\<lambda>col. row) (nominees s)\<rparr>, []))))"

definition nominf ::
  "env \<Rightarrow> name \<Rightarrow> string \<Rightarrow> string \<Rightarrow> string \<Rightarrow> string \<Rightarrow> string \<Rightarrow> string \<Rightarrow> bool \<Rightarrow>
   sys \<Rightarrow> result" where
  "nominf c nmnee nm dsc pic tg tw wc remove s =
     and_then (nominf_body c nmnee nm dsc pic tg tw wc remove s) (state_refresh c)"

subsection \<open>\<^verbatim>\<open>regvoter\<close>\<close>

definition regvoter :: "env \<Rightarrow> name \<Rightarrow> sys \<Rightarrow> result" where
  "regvoter c v s =
     (if v \<notin> auths c then Inl (Missing_auth v)
      else if v \<notin> accounts c then Inl (Check_failed ''Voter account must exist.'')
      else
        (case elections s of
           None \<Rightarrow> Inl Singleton_missing
         | Some elect \<Rightarrow>
             if reggedvoters s v = None then
               let flag = \<lparr>referrer = self c, treasury = ''8,VOTE'', rv_voter = v\<rparr>;
                   elect' =
                     (if synced_voter elect \<noteq> [] then
                        (if length (voter elect) \<noteq> 0
                         then elect\<lparr>voter := voter elect @ [v]\<rparr>
                         else elect\<lparr>synced_voter := synced_voter elect @ [v]\<rparr>)
                      else elect\<lparr>voter := voter elect @ [v]\<rparr>)
               in Inr (s\<lparr>reggedvoters := (reggedvoters s)(v \<mapsto> flag),
                         elections := Some elect'\<rparr>, [Decide_regvoter v])
             else Inr (s, [])))"

section \<open>Notions used in the statements\<close>

text \<open>The persisted state after one call of the public action \<^verbatim>\<open>updtstate\<close>.\<close>

definition advance :: "env \<Rightarrow> sys \<Rightarrow> sys" where
  "advance c s = commit (updtstate c s) s"

text \<open>The guards of the step function, state by state: in state 1 the nomination opening
  has been reached, in state 2 the nomination deadline has passed and two nominations are
  accepted, in state 3 the voting opening has been reached, in state 4 the voting deadline
  has passed; state 6 always runs the cleanup process.\<close>

definition transition_due :: "env \<Rightarrow> sys \<Rightarrow> bool" where
  "transition_due c s =
     (case elections s of
        None \<Rightarrow> False
      | Some e \<Rightarrow>
          state e = 1 \<and> nmn_open e \<le> now c
          \<or> state e = 2 \<and> nmn_close e \<le> now c
              \<and> 2 \<le> length (filter accepted (nominations s))
          \<or> state e = 3 \<and> vote_open e \<le> now c
          \<or> state e = 4 \<and> vote_close e \<le> now c
          \<or> state e = 6)"

text \<open>An election that is still in state 1 although its nomination opening has been reached:
  the step function never leaves a record like this behind.\<close>

definition created_overdue :: "env \<Rightarrow> sys \<Rightarrow> bool" where
  "created_overdue c s =
     (case elections s of None \<Rightarrow> False | Some e \<Rightarrow> state e = 1 \<and> nmn_open e \<le> now c)"

subsection \<open>Example environments and states\<close>

text \<open>The contract account is \<^verbatim>\<open>oig\<close>. An action authorised by the contract itself, and an
  action authorised by some user \<open>u\<close>, at block time \<open>t\<close>.\<close>

definition operator_env :: "time_point_sec \<Rightarrow> env" where
  "operator_env t = \<lparr>self = name_oig, auths = {name_oig}, now = t, accounts = {name_oig}\<rparr>"

definition user_env :: "name \<Rightarrow> time_point_sec \<Rightarrow> env" where
  "user_env u t = \<lparr>self = name_oig, auths = {u}, now = t, accounts = {name_oig, u}\<rparr>"

text \<open>The record after \<^verbatim>\<open>inaugurate("t", "d", "", 1000, 2000, 3000, 4000, false)\<close> on a fresh
  contract, and after the cancellation that follows it.\<close>

definition created_election :: election where
  "created_election =
     \<lparr>ballot = name_oig + 1, state = 1, title = ''t'', description = ''d'', content = [],
      nom_count = 0, voter = [], synced_voter = [],
      nmn_open = 1000, nmn_close = 2000, vote_open = 3000, vote_close = 4000\<rparr>"

definition created :: sys where
  "created = fresh\<lparr>elections := Some created_election\<rparr>"

definition cancelled :: sys where
  "cancelled = fresh\<lparr>elections := Some (created_election\<lparr>ballot := name_oig, state := 6\<rparr>)\<rparr>"

text \<open>A record between two cycles with one synchronised voter (account 5) and no pending
  one.\<close>

definition mid_cycle :: sys where
  "mid_cycle =
     created\<lparr>reggedvoters :=
               (reggedvoters created)
                 (5 \<mapsto> \<lparr>referrer = name_oig, treasury = ''8,VOTE'', rv_voter = 5\<rparr>),
             elections := Some (created_election\<lparr>state := 5, synced_voter := [5]\<rparr>)\<rparr>"

text \<open>What makes one call of \<^verbatim>\<open>updtstate\<close> change the store: a guard of the step function
  holds, where the cleanup of state 6 counts only if the call is authorised by the contract
  and there is something left for it to do.\<close>

definition change_due :: "env \<Rightarrow> sys \<Rightarrow> bool" where
  "change_due c s =
     (case elections s of
        None \<Rightarrow> False
      | Some e \<Rightarrow>
          state e = 1 \<and> nmn_open e \<le> now c
          \<or> state e = 2 \<and> nmn_close e \<le> now c
              \<and> 2 \<le> length (filter accepted (nominations s))
          \<or> state e = 3 \<and> vote_open e \<le> now c
          \<or> state e = 4 \<and> vote_close e \<le> now c
          \<or> state e = 6 \<and> self c \<in> auths c
              \<and> (synced_voter e \<noteq> [] \<or> nom_count e \<noteq> 0
                  \<or> nominations s \<noteq> [] \<or> nominees s \<noteq> []))"

text \<open>An election whose voting deadline 4000 has passed, with 101 registered voters
  (accounts 0 to 100) pending and two accepted nominations.\<close>

definition voting_overdue :: sys where
  "voting_overdue =
     \<lparr>elections = Some (created_election\<lparr>state := 4, nom_count := 2,
                          voter := map of_nat [0..<101]\<rparr>),
      nominations = [\<lparr>nominee = 1, accepted = True\<rparr>, \<lparr>nominee = 2, accepted = True\<rparr>],
      nominees = [],
      reggedvoters = (\<lambda>v. if v \<in> set (map of_nat [0..<101])
                            then Some \<lparr>referrer = name_oig, treasury = ''8,VOTE'', rv_voter = v\<rparr>
                            else None)\<rparr>"

subsection \<open>Sequences of actions\<close>

text \<open>The public actions, and the store after a sequence of transactions, each with the
  environment the chain gives it; an aborted transaction leaves the store as it was.\<close>

datatype call =
    Init
  | Inaugurate string string string time_point_sec time_point_sec time_point_sec
      time_point_sec bool
  | Nominate name name
  | Proclaim name bool
  | Nominf name string string string string string string bool
  | Updtstate
  | Regvoter name
  | Endelection
  | Cleanup
  | Setballot name

fun exec :: "env \<Rightarrow> call \<Rightarrow> sys \<Rightarrow> result" where
  "exec c Init s = init c s"
| "exec c (Inaugurate ttl dsc cnt t1 t2 t3 t4 cancel) s =
     inaugurate c ttl dsc cnt t1 t2 t3 t4 cancel s"
| "exec c (Nominate nominator nmnee) s = nominate c nominator nmnee s"
| "exec c (Proclaim nmnee decision) s = proclaim c nmnee decision s"
| "exec c (Nominf nmnee nm dsc pic tg tw wc remove) s =
     nominf c nmnee nm dsc pic tg tw wc remove s"
| "exec c Updtstate s = updtstate c s"
| "exec c (Regvoter v) s = regvoter c v s"
| "exec c Endelection s = endelection c s"
| "exec c Cleanup s = cleanup c s"
| "exec c (Setballot bid) s = setballot c bid s"

fun run :: "(env \<times> call) list \<Rightarrow> sys \<Rightarrow> sys" where
  "run [] s = s"
| "run ((c, a) # rest) s = run rest (commit (exec c a s) s)"

text \<open>The two voter lists hold distinct accounts, none in both, each with its registration
  flag.\<close>

definition placed_ok :: "name list \<Rightarrow> name list \<Rightarrow> (name \<Rightarrow> reggedvoter option) \<Rightarrow> bool" where
  "placed_ok pending synced flags =
     (distinct (pending @ synced)
      \<and> (\<forall>v \<in> set pending. flags v \<noteq> None)
      \<and> (\<forall>v \<in> set synced. flags v \<noteq> None))"

definition voters_ok :: "sys \<Rightarrow> bool" where
  "voters_ok s =
     (case elections s of
        None \<Rightarrow> True
      | Some e \<Rightarrow> placed_ok (voter e) (synced_voter e) (reggedvoters s))"

text \<open>A short election: creation, two registrations, two self-nominations, the three
  time-driven transitions, and a late registration after the synchronisation.\<close>

definition demo_calls :: "(env \<times> call) list" where
  "demo_calls =
     [(operator_env 500, Inaugurate ''t'' ''d'' [] 1000 2000 3000 4000 False),
      (user_env 7 600, Regvoter 7),
      (user_env 8 700, Regvoter 8),
      (user_env 7 1500, Nominate 7 7),
      (user_env 8 1600, Nominate 8 8),
      (user_env 9 2500, Updtstate),
      (user_env 9 3500, Updtstate),
      (user_env 9 4500, Updtstate),
      (user_env 9 4600, Regvoter 9)]"

definition demo_final :: election where
  "demo_final = created_election\<lparr>state := 5, nom_count := 2, voter := [],
                   synced_voter := [8, 7, 9]\<rparr>"

subsection \<open>Examples for the nomination registry\<close>

text \<open>A registry of 201 nominations (accounts 1 to 201) of which the first five are
  accepted, with the count at 201, while nominations are open.\<close>

definition spam_table :: "nomination list" where
  "spam_table = map (\<lambda>i. \<lparr>nominee = of_nat i, accepted = (i < 6)\<rparr>) [1..<202]"

definition spammed :: sys where
  "spammed = \<lparr>elections = Some (created_election\<lparr>state := 2, nom_count := 201\<rparr>),
              nominations = spam_table, nominees = [], reggedvoters = (\<lambda>v. None)\<rparr>"

text \<open>A sequence of self-nominations, one transaction per nominator, all at the time of
  \<open>c\<close>; the 151 accounts 1 to 151; an environment in which these accounts exist.\<close>

definition self_nominations :: "env \<Rightarrow> name list \<Rightarrow> (env \<times> call) list" where
  "self_nominations c ns = map (\<lambda>n. (c\<lparr>auths := {n}\<rparr>, Nominate n n)) ns"

definition candidates :: "name list" where
  "candidates = map of_nat [1..<152]"

definition everyone_env :: "time_point_sec \<Rightarrow> env" where
  "everyone_env t = \<lparr>self = name_oig, auths = {}, now = t, accounts = set candidates\<rparr>"

text \<open>The stored record, if any, is not in state 10.\<close>

definition never_uninitialized :: "sys \<Rightarrow> bool" where
  "never_uninitialized s = (case elections s of None \<Rightarrow> True | Some e \<Rightarrow> state e \<noteq> 10)"

section \<open>Properties\<close>

subsection \<open>Auxiliary facts\<close>

lemma name_oig_value: "name_oig = 0xA398000000000000"
  by (simp add: name_oig_def)

lemma ballot_options_filter: "ballot_options t = map nominee (filter accepted t)"
  by (induction t) auto

lemma erase_all_Nil [simp]: "erase_all t = []"
  by (induction t) auto

lemma sync_loop_step:
  "voter e \<noteq> [] \<Longrightarrow> i < 100 \<Longrightarrow>
   sync_loop i e =
     (fst (sync_loop (i + 1) (e\<lparr>synced_voter := synced_voter e @ [last (voter e)],
                                 voter := butlast (voter e)\<rparr>)),
      syncvoter (last (voter e)) (ballot e) @
      snd (sync_loop (i + 1) (e\<lparr>synced_voter := synced_voter e @ [last (voter e)],
                                 voter := butlast (voter e)\<rparr>)))"
  by (subst sync_loop.simps) (simp add: Let_def split: prod.splits)

lemma sync_loop_stop: "voter e = [] \<or> \<not> i < 100 \<Longrightarrow> sync_loop i e = (e, [])"
  by (subst sync_loop.simps) auto

text \<open>The batch loop touches the two voter lists only.\<close>

lemma sync_loop_fields:
  "fst (sync_loop i e) =
     e\<lparr>synced_voter := synced_voter (fst (sync_loop i e)),
       voter := voter (fst (sync_loop i e))\<rparr>"
proof (induction i e rule: sync_loop.induct)
  case (1 i elect)
  show ?case
  proof (cases "voter elect \<noteq> [] \<and> i < 100")
    case True
    have "fst (sync_loop i elect) =
          fst (sync_loop (i + 1) (elect\<lparr>synced_voter := synced_voter elect @ [last (voter elect)],
                                        voter := butlast (voter elect)\<rparr>))"
      using True by (simp add: sync_loop_step)
    then show ?thesis
      using "1.IH"[OF True refl refl] by simp
  next
    case False
    then show ?thesis by (simp add: sync_loop_stop)
  qed
qed

text \<open>It moves voters from the back of the pending list to the back of the synced list.\<close>

lemma sync_loop_voters:
  "voter (fst (sync_loop i e)) @ rev (synced_voter (fst (sync_loop i e))) =
   voter e @ rev (synced_voter e)"
proof (induction i e rule: sync_loop.induct)
  case (1 i elect)
  show ?case
  proof (cases "voter elect \<noteq> [] \<and> i < 100")
    case True
    have "fst (sync_loop i elect) =
          fst (sync_loop (i + 1) (elect\<lparr>synced_voter := synced_voter elect @ [last (voter elect)],
                                        voter := butlast (voter elect)\<rparr>))"
      using True by (simp add: sync_loop_step)
    moreover have "butlast (voter elect) @ [last (voter elect)] = voter elect"
      using True by simp
    ultimately show ?thesis
      using "1.IH"[OF True refl refl] by simp
  next
    case False
    then show ?thesis by (simp add: sync_loop_stop)
  qed
qed

text \<open>One batch is at most \<open>100 - i\<close> voters.\<close>

lemma sync_loop_length:
  "length (voter (fst (sync_loop i e))) =
   length (voter e) - min (length (voter e)) (100 - i)"
proof (induction i e rule: sync_loop.induct)
  case (1 i elect)
  show ?case
  proof (cases "voter elect \<noteq> [] \<and> i < 100")
    case True
    have "fst (sync_loop i elect) =
          fst (sync_loop (i + 1) (elect\<lparr>synced_voter := synced_voter elect @ [last (voter elect)],
                                        voter := butlast (voter elect)\<rparr>))"
      using True by (simp add: sync_loop_step)
    moreover have "0 < length (voter elect)" "i < 100" using True by simp_all
    moreover have "length (butlast (voter elect)) = length (voter elect) - 1" by simp
    ultimately show ?thesis
      using "1.IH"[OF True refl refl] by (simp del: length_butlast) arith
  next
    case False
    then show ?thesis by (auto simp add: sync_loop_stop)
  qed
qed

lemma migrate_loop_step:
  "voter e \<noteq> [] \<Longrightarrow> i < 200 \<Longrightarrow>
   migrate_loop i e =
     migrate_loop (i + 1) (e\<lparr>synced_voter := synced_voter e @ [last (voter e)],
                            voter := butlast (voter e)\<rparr>)"
  by (subst migrate_loop.simps) simp

lemma migrate_loop_stop: "voter e = [] \<or> \<not> i < 200 \<Longrightarrow> migrate_loop i e = e"
  by (subst migrate_loop.simps) auto

lemma migrate_loop_fields:
  "migrate_loop i e =
     e\<lparr>synced_voter := synced_voter (migrate_loop i e), voter := voter (migrate_loop i e)\<rparr>"
proof (induction i e rule: migrate_loop.induct)
  case (1 i elect)
  show ?case
  proof (cases "voter elect \<noteq> [] \<and> i < 200")
    case True
    then show ?thesis
      using "1.IH"[OF True] by (simp add: migrate_loop_step)
  next
    case False
    then show ?thesis by (simp add: migrate_loop_stop)
  qed
qed

lemma migrate_loop_voters:
  "voter (migrate_loop i e) @ rev (synced_voter (migrate_loop i e)) =
   voter e @ rev (synced_voter e)"
proof (induction i e rule: migrate_loop.induct)
  case (1 i elect)
  show ?case
  proof (cases "voter elect \<noteq> [] \<and> i < 200")
    case True
    moreover have "butlast (voter elect) @ [last (voter elect)] = voter elect"
      using True by simp
    ultimately show ?thesis
      using "1.IH"[OF True] by (simp add: migrate_loop_step)
  next
    case False
    then show ?thesis by (simp add: migrate_loop_stop)
  qed
qed

lemma migrate_loop_length:
  "length (voter (migrate_loop i e)) =
   length (voter e) - min (length (voter e)) (200 - i)"
proof (induction i e rule: migrate_loop.induct)
  case (1 i elect)
  show ?case
  proof (cases "voter elect \<noteq> [] \<and> i < 200")
    case True
    have "0 < length (voter elect)" "i < 200" using True by simp_all
    moreover have "length (butlast (voter elect)) = length (voter elect) - 1" by simp
    ultimately show ?thesis
      using "1.IH"[OF True] True by (simp add: migrate_loop_step del: length_butlast) arith
  next
    case False
    then show ?thesis by (auto simp add: migrate_loop_stop)
  qed
qed

text \<open>The example states are reached from the fresh contract by a creation and a
  cancellation.\<close>

lemma created_reached:
  "inaugurate (operator_env 500) ''t'' ''d'' [] 1000 2000 3000 4000 False fresh
     = Inr (created, [])"
  by (simp add: inaugurate_def operator_env_def fresh_def created_def created_election_def
        default_election_def)

lemma cancelled_reached:
  "inaugurate (operator_env 600) [] [] [] 0 0 0 0 True created = Inr (cancelled, [])"
  by (simp add: inaugurate_def operator_env_def fresh_def created_def cancelled_def
        created_election_def)

lemma sync_loop_state: "state (fst (sync_loop i e)) = state e"
  by (subst sync_loop_fields) simp

lemma sync_loop_nmn_open: "nmn_open (fst (sync_loop i e)) = nmn_open e"
  by (subst sync_loop_fields) simp

lemma migrate_loop_state: "state (migrate_loop i e) = state e"
  by (subst migrate_loop_fields) simp

lemma migrate_loop_nmn_open: "nmn_open (migrate_loop i e) = nmn_open e"
  by (subst migrate_loop_fields) simp

subsection \<open>Initialisation\<close>

text \<open>\<^verbatim>\<open>init\<close> succeeds exactly on a stored record whose state is 10. A contract without a
  stored record reads the default-constructed row, whose state is 0.\<close>

lemma init_succeeds_iff:
  "(\<exists>r. init c s = Inr r) \<longleftrightarrow>
   self c \<in> auths c \<and> (\<exists>e. elections s = Some e \<and> state e = 10)"
  by (auto simp add: init_def default_election_def Let_def split: option.splits)

lemma init_without_record:
  "self c \<in> auths c \<Longrightarrow> elections s = None \<Longrightarrow>
   init c s = Inl (Check_failed ''Contract already initialized.'')"
  by (simp add: init_def default_election_def)

lemma init_initialized:
  "self c \<in> auths c \<Longrightarrow> elections s = Some e \<Longrightarrow> state e \<noteq> 10 \<Longrightarrow>
   init c s = Inl (Check_failed ''Contract already initialized.'')"
  by (simp add: init_def)

text \<open>
  Claim C1. On a contract where no election record has ever been stored, \<^verbatim>\<open>init\<close> called
  with the contract's own authority should succeed, send the voter registration of the
  contract and set the state to 0. Evaluated on the fresh contract, the action aborts with
  the message of the already-initialised case instead: the record it reads has state 0, not
  10.
\<close>

theorem init_fresh_fails:
  "init (operator_env 0) fresh = Inl (Check_failed ''Contract already initialized.'')"
  by (simp add: init_def operator_env_def fresh_def default_election_def)

text \<open>
  Claim C10. On a contract on which \<^verbatim>\<open>init\<close> has never run (no record stored), a well-formed
  creation call (\<^verbatim>\<open>inaugurate\<close> with \<^verbatim>\<open>cancel = false\<close>, the contract's authority, a title and
  a description, and \<open>now \<le> nmn_open < nmn_close < vote_open < vote_close\<close>) succeeds and stores
  a record in state 1; the record read there is the default one with state 0, and no call of
  \<^verbatim>\<open>inaugurate\<close> on such a contract ends in the not-initialised failure.
\<close>

theorem create_without_init:
  assumes "self c \<in> auths c" and "elections s = None" and "ttl \<noteq> []" and "dsc \<noteq> []"
    and "now c \<le> t1" and "t1 < t2" and "t2 < t3" and "t3 < t4"
  shows "inaugurate c ttl dsc cnt t1 t2 t3 t4 False s =
           Inr (s\<lparr>elections := Some (default_election\<lparr>ballot := name_oig + 1, state := 1,
                    title := ttl, description := dsc, content := cnt,
                    nmn_open := t1, nmn_close := t2, vote_open := t3, vote_close := t4\<rparr>)\<rparr>, [])
         \<and> state default_election = 0
         \<and> inaugurate c ttl' dsc' cnt' u1 u2 u3 u4 cancel s
             \<noteq> Inl (Check_failed ''Contract not initialized.'')"
proof -
  have "inaugurate c ttl' dsc' cnt' u1 u2 u3 u4 cancel s
          \<noteq> Inl (Check_failed ''Contract not initialized.'')"
    using assms(2) by (simp add: inaugurate_def default_election_def Let_def)
  then show ?thesis
    using assms by (simp add: inaugurate_def default_election_def)
qed

theorem create_without_init_witness:
  "inaugurate (operator_env 500) ''t'' ''d'' [] 1000 2000 3000 4000 False fresh
     = Inr (created, [])
   \<and> inaugurate (operator_env 500) [] [] [] 0 0 0 0 True fresh
       \<noteq> Inl (Check_failed ''Contract not initialized.'')"
  using create_without_init [of "operator_env 500" fresh "''t''" "''d''" 1000 2000 3000 4000
      "[]" "[]" "[]" "[]" 0 0 0 0 True]
  by (simp add: operator_env_def fresh_def created_def created_election_def default_election_def)

subsection \<open>The step function as a public action\<close>

lemma state_refresh_total:
  assumes "elections s = Some e" and "state e \<noteq> 6 \<or> self c \<in> auths c"
  shows "\<exists>s' acts. state_refresh c s = Inr (s', acts)"
  using assms by (auto simp add: state_refresh_def cleanup_def Let_def split: prod.splits)

lemma state_refresh_noop:
  assumes "elections s = Some e" and "\<not> transition_due c s"
  shows "state_refresh c s = Inr (s, [])"
  using assms
  by (auto simp add: state_refresh_def transition_due_def ballot_options_filter Let_def)

lemma state_refresh_unauth:
  assumes "elections s = Some e" and "state e = 6" and "self c \<notin> auths c"
  shows "state_refresh c s = Inl (Missing_auth (self c))"
  using assms by (auto simp add: state_refresh_def cleanup_def)

text \<open>
  Claim C2, as stated: \<^verbatim>\<open>updtstate\<close> succeeds for every stored record and every caller, in
  particular in the cleanup state. It does not: in state 6 the step function calls
  \<^verbatim>\<open>cleanup\<close>, which requires the contract's own authority. The record here is the one
  left by a creation and a cancellation; the caller is account 7.
\<close>

theorem updtstate_cleanup_needs_operator_counterexample:
  "inaugurate (operator_env 500) ''t'' ''d'' [] 1000 2000 3000 4000 False fresh
     = Inr (created, [])
   \<and> inaugurate (operator_env 600) [] [] [] 0 0 0 0 True created = Inr (cancelled, [])
   \<and> map_option state (elections cancelled) = Some 6
   \<and> updtstate (user_env 7 700) cancelled = Inl (Missing_auth name_oig)"
  by (simp add: created_reached cancelled_reached)
     (simp add: updtstate_def state_refresh_def cleanup_def user_env_def cancelled_def
        created_election_def fresh_def name_oig_value)

text \<open>
  Claim C2, amended. For every stored record, \<^verbatim>\<open>updtstate\<close> succeeds for every caller when
  the state is not 6 (cleanup), and in state 6 when the action carries the contract's own
  authority; in state 6 without that authority it aborts with the missing authority. When
  no transition guard holds it succeeds, sends nothing and leaves the store unchanged.
\<close>

theorem updtstate_succeeds_unless_cleanup_unauthorised:
  assumes "elections s = Some e"
  shows "(state e \<noteq> 6 \<or> self c \<in> auths c \<longrightarrow> (\<exists>s' acts. updtstate c s = Inr (s', acts)))
       \<and> (state e = 6 \<and> self c \<notin> auths c \<longrightarrow> updtstate c s = Inl (Missing_auth (self c)))
       \<and> (\<not> transition_due c s \<longrightarrow> updtstate c s = Inr (s, []))"
  using assms state_refresh_total [of s e c] state_refresh_noop [of s e c]
    state_refresh_unauth [of s e c]
  by (simp add: updtstate_def)

theorem updtstate_succeeds_unless_cleanup_unauthorised_witness:
  "updtstate (user_env 7 700) created = Inr (created, [])
   \<and> (\<exists>s' acts. updtstate (operator_env 700) cancelled = Inr (s', acts))
   \<and> updtstate (user_env 7 700) cancelled = Inl (Missing_auth name_oig)"
  using updtstate_succeeds_unless_cleanup_unauthorised
          [of created created_election "user_env 7 700"]
        updtstate_succeeds_unless_cleanup_unauthorised
          [of cancelled "created_election\<lparr>ballot := name_oig, state := 6\<rparr>" "operator_env 700"]
        updtstate_succeeds_unless_cleanup_unauthorised
          [of cancelled "created_election\<lparr>ballot := name_oig, state := 6\<rparr>" "user_env 7 700"]
  by (simp add: transition_due_def created_def cancelled_def created_election_def fresh_def
        user_env_def operator_env_def name_oig_value)

subsection \<open>Cleanup\<close>

text \<open>With no synchronised voter, \<^verbatim>\<open>cleanup\<close> empties the registries and resets the count,
  and changes nothing else: the state stays what it was.\<close>

lemma cleanup_without_synced:
  assumes "self c \<in> auths c" and "elections s = Some e" and "synced_voter e = []"
  shows "cleanup c s = Inr (s\<lparr>nominees := [], nominations := [],
                              elections := Some (e\<lparr>nom_count := 0\<rparr>)\<rparr>, [])"
  using assms by (simp add: cleanup_def)

text \<open>
  Claim C3. A record in the cleanup state whose pending list is empty should reach state 0,
  also when the synced list is empty, as after a cancelled election without voters. The
  fresh contract, a creation and a cancellation give such a record (state 6, both lists
  empty); \<^verbatim>\<open>cleanup\<close> with the contract's authority, and \<^verbatim>\<open>updtstate\<close> likewise, return it
  unchanged, still in state 6: the assignment of state 0 is only made under a non-empty
  synced list.
\<close>

theorem cleanup_stuck_after_cancel:
  "inaugurate (operator_env 500) ''t'' ''d'' [] 1000 2000 3000 4000 False fresh
     = Inr (created, [])
   \<and> inaugurate (operator_env 600) [] [] [] 0 0 0 0 True created = Inr (cancelled, [])
   \<and> map_option state (elections cancelled) = Some 6
   \<and> cleanup (operator_env 700) cancelled = Inr (cancelled, [])
   \<and> updtstate (operator_env 700) cancelled = Inr (cancelled, [])"
  by (simp add: created_reached cancelled_reached)
     (simp add: updtstate_def state_refresh_def cleanup_def operator_env_def cancelled_def
        created_election_def fresh_def)

subsection \<open>Voter registration\<close>

text \<open>
  Claim C8, as stated: for every voter without a registration flag, \<^verbatim>\<open>regvoter\<close> creates
  the flag, sends one registration and appends the voter to one of the lists. On a contract
  with no stored election record it does not: \<^verbatim>\<open>regvoter\<close> reads the record with
  \<^verbatim>\<open>elections.get()\<close>, which aborts when none is stored. Account 7 exists, authorises the
  call and has no flag; the call on the fresh contract aborts and the store stays as it was.
\<close>

theorem regvoter_without_record_counterexample:
  "reggedvoters fresh 7 = None
   \<and> 7 \<in> auths (user_env 7 700) \<and> 7 \<in> accounts (user_env 7 700)
   \<and> regvoter (user_env 7 700) 7 fresh = Inl Singleton_missing
   \<and> commit (regvoter (user_env 7 700) 7 fresh) fresh = fresh"
  by (simp add: regvoter_def user_env_def fresh_def commit_def)

text \<open>
  Claim C8, amended. For an existing account \<open>v\<close> that authorised the call, on a contract
  whose election record is stored: if \<open>v\<close> has no registration flag, \<^verbatim>\<open>regvoter\<close> creates the
  flag, sends exactly one registration to \<^verbatim>\<open>decide\<close> and appends \<open>v\<close> to the pending list,
  except when the synced list is non-empty and the pending list empty, where it appends \<open>v\<close>
  to the synced list; if the flag exists, nothing is sent and the store is unchanged.
\<close>

theorem regvoter_places_new_voter:
  assumes "v \<in> auths c" and "v \<in> accounts c" and "elections s = Some e"
  shows "(reggedvoters s v = None \<longrightarrow>
           regvoter c v s =
             Inr (s\<lparr>reggedvoters :=
                      (reggedvoters s)
                        (v \<mapsto> \<lparr>referrer = self c, treasury = ''8,VOTE'', rv_voter = v\<rparr>),
                    elections :=
                      Some (if synced_voter e \<noteq> [] \<and> voter e = []
                            then e\<lparr>synced_voter := synced_voter e @ [v]\<rparr>
                            else e\<lparr>voter := voter e @ [v]\<rparr>)\<rparr>,
                  [Decide_regvoter v]))
       \<and> (reggedvoters s v \<noteq> None \<longrightarrow> regvoter c v s = Inr (s, []))"
  using assms by (auto simp add: regvoter_def)

theorem regvoter_places_new_voter_witness:
  "regvoter (user_env 7 700) 7 created =
     Inr (created\<lparr>reggedvoters :=
                    (reggedvoters created)
                      (7 \<mapsto> \<lparr>referrer = name_oig, treasury = ''8,VOTE'', rv_voter = 7\<rparr>),
                  elections := Some (created_election\<lparr>voter := [7]\<rparr>)\<rparr>, [Decide_regvoter 7])
   \<and> regvoter (user_env 7 5000) 7 mid_cycle =
     Inr (mid_cycle\<lparr>reggedvoters :=
                      (reggedvoters mid_cycle)
                        (7 \<mapsto> \<lparr>referrer = name_oig, treasury = ''8,VOTE'', rv_voter = 7\<rparr>),
                    elections :=
                      Some (created_election\<lparr>state := 5, synced_voter := [5, 7]\<rparr>)\<rparr>,
          [Decide_regvoter 7])
   \<and> regvoter (user_env 5 5000) 5 mid_cycle = Inr (mid_cycle, [])"
  using regvoter_places_new_voter [of 7 "user_env 7 700" created created_election]
    regvoter_places_new_voter
      [of 7 "user_env 7 5000" mid_cycle "created_election\<lparr>state := 5, synced_voter := [5]\<rparr>"]
    regvoter_places_new_voter
      [of 5 "user_env 5 5000" mid_cycle "created_election\<lparr>state := 5, synced_voter := [5]\<rparr>"]
  by (simp add: user_env_def created_def mid_cycle_def created_election_def fresh_def)

subsection \<open>Which actions end with the step function\<close>

lemma cleanup_never_overdue:
  assumes "cleanup c s0 = Inr (s', a)" and "\<not> created_overdue c s0"
  shows "\<not> created_overdue c s'"
  using assms
  by (auto simp add: cleanup_def created_overdue_def migrate_loop_state migrate_loop_nmn_open
      Let_def split: if_splits option.splits)

lemma state_refresh_never_overdue:
  assumes "state_refresh c s0 = Inr (s', a)"
  shows "\<not> created_overdue c s'"
proof (cases "elections s0")
  case None
  then show ?thesis using assms by (simp add: state_refresh_def)
next
  case (Some e)
  show ?thesis
  proof (cases "state e = 6")
    case True
    then have "cleanup c s0 = Inr (s', a)" and "\<not> created_overdue c s0"
      using assms Some by (simp_all add: state_refresh_def created_overdue_def)
    then show ?thesis by (rule cleanup_never_overdue)
  next
    case False
    then show ?thesis
      using assms Some sync_loop_state [of 0 e] sync_loop_nmn_open [of 0 e]
      by (auto simp add: state_refresh_def created_overdue_def Let_def
          split: if_splits prod.splits)
  qed
qed

lemma and_then_refresh_never_overdue:
  "and_then r (state_refresh c) = Inr (s', acts) \<Longrightarrow> \<not> created_overdue c s'"
  by (auto simp add: and_then_def split: sum.splits prod.splits
      dest: state_refresh_never_overdue)

text \<open>
  Claim C9, as stated: also a successful \<^verbatim>\<open>regvoter\<close> ends by invoking the step function.
  It does not: account 7 registers at time 1500 on the created election, whose nomination
  opening 1000 has passed; the action returns with the election still in state 1, which the
  step function never leaves behind, and its result differs from the one it would have with
  a final \<^verbatim>\<open>state_refresh\<close>.
\<close>

theorem regvoter_skips_state_refresh_counterexample:
  "regvoter (user_env 7 1500) 7 created =
     Inr (created\<lparr>reggedvoters :=
                    (reggedvoters created)
                      (7 \<mapsto> \<lparr>referrer = name_oig, treasury = ''8,VOTE'', rv_voter = 7\<rparr>),
                  elections := Some (created_election\<lparr>voter := [7]\<rparr>)\<rparr>, [Decide_regvoter 7])
   \<and> created_overdue (user_env 7 1500)
        (created\<lparr>reggedvoters :=
                    (reggedvoters created)
                      (7 \<mapsto> \<lparr>referrer = name_oig, treasury = ''8,VOTE'', rv_voter = 7\<rparr>),
                  elections := Some (created_election\<lparr>voter := [7]\<rparr>)\<rparr>)
   \<and> regvoter (user_env 7 1500) 7 created
       \<noteq> and_then (regvoter (user_env 7 1500) 7 created) (state_refresh (user_env 7 1500))"
  by (simp add: regvoter_def and_then_def state_refresh_def user_env_def created_def
        created_election_def fresh_def created_overdue_def)

text \<open>
  Claim C9, amended. \<^verbatim>\<open>nominate\<close>, \<^verbatim>\<open>proclaim\<close>, \<^verbatim>\<open>nominf\<close> and \<^verbatim>\<open>endelection\<close> end by invoking
  the step function: each is its body followed by \<^verbatim>\<open>state_refresh\<close>, so a successful call of
  any of them never leaves the election in state 1 with the nomination opening reached.
  (\<^verbatim>\<open>regvoter\<close> does not invoke the step function.)
\<close>

theorem entry_points_end_with_state_refresh:
  "nominate c nominator nmnee s =
     and_then (nominate_body c nominator nmnee s) (state_refresh c)
   \<and> proclaim c n decision s = and_then (proclaim_body c n decision s) (state_refresh c)
   \<and> nominf c m nm dsc pic tg tw wc rm s =
       and_then (nominf_body c m nm dsc pic tg tw wc rm s) (state_refresh c)
   \<and> endelection c s = and_then (endelection_body c s) (state_refresh c)
   \<and> (nominate c nominator nmnee s = Inr (s', acts)
      \<or> proclaim c n decision s = Inr (s', acts)
      \<or> nominf c m nm dsc pic tg tw wc rm s = Inr (s', acts)
      \<or> endelection c s = Inr (s', acts) \<longrightarrow> \<not> created_overdue c s')"
  by (auto simp add: nominate_def proclaim_def nominf_def endelection_def
      dest: and_then_refresh_never_overdue)

theorem entry_points_end_with_state_refresh_witness:
  "nominate (user_env 7 1500) 7 7 created =
     Inr (created\<lparr>nominations := [\<lparr>nominee = 7, accepted = True\<rparr>],
                  elections := Some (created_election\<lparr>nom_count := 1, state := 2\<rparr>)\<rparr>, [])
   \<and> \<not> created_overdue (user_env 7 1500)
         (created\<lparr>nominations := [\<lparr>nominee = 7, accepted = True\<rparr>],
                  elections := Some (created_election\<lparr>nom_count := 1, state := 2\<rparr>)\<rparr>)"
  using entry_points_end_with_state_refresh [of "user_env 7 1500" 7 7 created]
  by (simp add: nominate_body_def and_then_def state_refresh_def user_env_def created_def
        created_election_def fresh_def emplace_nomination_def created_overdue_def)

subsection \<open>Calling the step function twice\<close>

lemma sys_update_same:
  "s\<lparr>nominees := a, nominations := b, elections := x\<rparr> = s
   \<longleftrightarrow> a = nominees s \<and> b = nominations s \<and> x = elections s"
  by (cases s) auto

lemma sys_elections_same: "s\<lparr>elections := x\<rparr> = s \<longleftrightarrow> x = elections s"
  by (cases s) auto

lemma sync_loop_vote_close: "vote_close (fst (sync_loop i e)) = vote_close e"
  by (subst sync_loop_fields) simp

lemma advance_voting:
  assumes "elections s = Some e" "state e = 4" "vote_close e \<le> now c"
  shows "advance c s =
           s\<lparr>elections := Some (if length (voter e) \<le> 100
                                 then (fst (sync_loop 0 e))\<lparr>state := 5\<rparr>
                                 else fst (sync_loop 0 e))\<rparr>"
  using assms sync_loop_length [of 0 e]
  by (auto simp add: advance_def updtstate_def state_refresh_def commit_def
      split: prod.splits)

lemma advance_voting_summary:
  assumes "elections s = Some e" "state e = 4" "vote_close e \<le> now c"
  shows "\<exists>e'. elections (advance c s) = Some e'
            \<and> state e' = (if length (voter e) \<le> 100 then 5 else 4)
            \<and> length (voter e') = length (voter e) - 100
            \<and> vote_close e' = vote_close e"
  using assms sync_loop_length [of 0 e]
  by (auto simp add: advance_voting sync_loop_state sync_loop_vote_close)

text \<open>A call of \<^verbatim>\<open>updtstate\<close> leaves the store as it is exactly when no change is due.\<close>

lemma advance_fixed_iff: "advance c s = s \<longleftrightarrow> \<not> change_due c s"
proof (cases "elections s")
  case None
  then show ?thesis
    by (simp add: advance_def updtstate_def state_refresh_def commit_def change_due_def)
next
  case (Some e)
  consider (voting) "state e = 4" | (cleanup) "state e = 6" | (other) "state e \<noteq> 4" "state e \<noteq> 6"
    by blast
  then show ?thesis
  proof cases
    case voting
    show ?thesis
    proof (cases "vote_close e \<le> now c")
      case True
      obtain e' where e': "elections (advance c s) = Some e'"
        "state e' = (if length (voter e) \<le> 100 then 5 else 4)"
        "length (voter e') = length (voter e) - 100"
        using advance_voting_summary [OF Some voting True] by blast
      have "e' \<noteq> e"
      proof
        assume "e' = e"
        then show False using e'(2,3) voting by (auto split: if_splits)
      qed
      then have "advance c s \<noteq> s" using e'(1) Some by auto
      then show ?thesis using Some voting True by (simp add: change_due_def)
    next
      case False
      then show ?thesis using Some voting
        by (simp add: advance_def updtstate_def state_refresh_def commit_def change_due_def)
    qed
  next
    case cleanup
    show ?thesis
    proof (cases "self c \<in> auths c")
      case False
      then show ?thesis using Some cleanup
        by (simp add: advance_def updtstate_def state_refresh_def cleanup_def commit_def
            change_due_def)
    next
      case True
      have adv: "advance c s = s\<lparr>nominees := [], nominations := [],
                       elections := Some (if synced_voter e \<noteq> [] then
                      (if voter e \<noteq> [] then migrate_loop 0 (e\<lparr>nom_count := 0\<rparr>)
                       else e\<lparr>nom_count := 0, voter := synced_voter e, synced_voter := [], state := 0\<rparr>)
                    else e\<lparr>nom_count := 0\<rparr>)\<rparr>"
        using Some cleanup True
        by (simp add: advance_def updtstate_def state_refresh_def cleanup_def commit_def)
      show ?thesis
      proof (cases "synced_voter e = []")
        case True
        have "e\<lparr>nom_count := 0\<rparr> = e \<longleftrightarrow> nom_count e = 0" by (cases e) auto
        then show ?thesis
          using adv True Some cleanup \<open>self c \<in> auths c\<close>
          by (auto simp add: sys_update_same change_due_def)
      next
        case False
        have "migrate_loop 0 (e\<lparr>nom_count := 0\<rparr>) \<noteq> e" if "voter e \<noteq> []"
        proof
          assume "migrate_loop 0 (e\<lparr>nom_count := 0\<rparr>) = e"
          then have "length (voter (migrate_loop 0 (e\<lparr>nom_count := 0\<rparr>))) = length (voter e)"
            by simp
          then show False using that by (simp add: migrate_loop_length min_def split: if_splits)
        qed
        moreover have "e\<lparr>nom_count := 0, voter := synced_voter e, synced_voter := [], state := 0\<rparr> \<noteq> e"
        proof
          assume "e\<lparr>nom_count := 0, voter := synced_voter e, synced_voter := [], state := 0\<rparr> = e"
          then have "state (e\<lparr>nom_count := 0, voter := synced_voter e, synced_voter := [], state := 0\<rparr>) = state e"
            by simp
          then show False using cleanup by simp
        qed
        ultimately show ?thesis
          using adv False Some cleanup \<open>self c \<in> auths c\<close>
          by (auto simp add: sys_update_same change_due_def)
      qed
    qed
  next
    case other
    have 1: "e\<lparr>state := k\<rparr> = e \<longleftrightarrow> k = state e" for k by (cases e) auto
    show ?thesis using Some other
      by (auto simp add: advance_def updtstate_def state_refresh_def commit_def change_due_def
          ballot_options_filter sys_elections_same 1 Let_def)
  qed
qed

lemma advance_twice_voting:
  assumes "elections s = Some e" "state e = 4" "vote_close e \<le> now c"
  shows "advance c (advance c s) = advance c s \<longleftrightarrow> length (voter e) \<le> 100"
proof -
  obtain e' where e': "elections (advance c s) = Some e'"
        "state e' = (if length (voter e) \<le> 100 then 5 else 4)"
        "vote_close e' = vote_close e"
    using advance_voting_summary [OF assms] by blast
  then show ?thesis
    using assms(3) by (simp add: advance_fixed_iff change_due_def)
qed

text \<open>
  Claim C4, amended. At one time snapshot, calling \<^verbatim>\<open>updtstate\<close> twice leaves the same store
  as calling it once exactly when no change is due on the store the first call leaves
  (each call takes at most one transition or one batch). In particular, for an election in
  state 4 whose voting deadline has passed, twice equals once if and only if at most 100
  voters are pending.
\<close>

theorem advance_twice_iff:
  "(advance c (advance c s) = advance c s \<longleftrightarrow> \<not> change_due c (advance c s))
   \<and> (elections s = Some e \<and> state e = 4 \<and> vote_close e \<le> now c \<longrightarrow>
        (advance c (advance c s) = advance c s \<longleftrightarrow> length (voter e) \<le> 100))"
  using advance_fixed_iff [of c "advance c s"] advance_twice_voting [of s e c]
  by blast

lemma voting_overdue_election:
  "elections voting_overdue = Some (created_election\<lparr>state := 4, nom_count := 2,
                          voter := map of_nat [0..<101]\<rparr>)"
  by (simp add: voting_overdue_def)

text \<open>
  Claim C4, as stated: two calls of \<^verbatim>\<open>updtstate\<close> at the same time leave the same store as
  one, also in state 4 with more than 100 pending voters after the voting deadline. With 101
  pending voters they do not: the first call synchronises 100, the second the last one and
  closes the voting.
\<close>

theorem advance_not_idempotent_counterexample:
  "advance (user_env 7 4500) (advance (user_env 7 4500) voting_overdue)
     \<noteq> advance (user_env 7 4500) voting_overdue"
  using advance_twice_voting [OF voting_overdue_election, of "user_env 7 4500"]
  by (simp add: created_election_def user_env_def)

theorem advance_twice_iff_witness:
  "advance (user_env 7 4500) (advance (user_env 7 4500) voting_overdue)
     \<noteq> advance (user_env 7 4500) voting_overdue
   \<and> change_due (user_env 7 4500) (advance (user_env 7 4500) voting_overdue)
   \<and> advance (user_env 7 1500) (advance (user_env 7 1500) created)
       = advance (user_env 7 1500) created"
proof -
  have adv: "advance (user_env 7 1500) created
               = created\<lparr>elections := Some (created_election\<lparr>state := 2\<rparr>)\<rparr>"
    by (simp add: advance_def updtstate_def state_refresh_def commit_def created_def
          created_election_def user_env_def fresh_def)
  have "advance (user_env 7 4500) (advance (user_env 7 4500) voting_overdue)
          \<noteq> advance (user_env 7 4500) voting_overdue
        \<and> change_due (user_env 7 4500) (advance (user_env 7 4500) voting_overdue)"
    using advance_twice_iff [of "user_env 7 4500" voting_overdue
        "created_election\<lparr>state := 4, nom_count := 2, voter := map of_nat [0..<101]\<rparr>"]
      voting_overdue_election
    by (auto simp add: created_election_def user_env_def)
  moreover have "advance (user_env 7 1500) (advance (user_env 7 1500) created)
                   = advance (user_env 7 1500) created"
    using advance_twice_iff [of "user_env 7 1500" created created_election]
    unfolding adv
    by (simp add: change_due_def created_def created_election_def user_env_def fresh_def)
  ultimately show ?thesis by blast
qed

subsection \<open>The two voter lists stay disjoint\<close>

lemma placed_ok_empty [simp]: "placed_ok [] [] flags"
  by (simp add: placed_ok_def)

lemma placed_ok_new_pending:
  "flags v = None \<Longrightarrow> placed_ok p y flags \<Longrightarrow> placed_ok (p @ [v]) y (flags(v \<mapsto> r))"
  by (auto simp add: placed_ok_def)

lemma placed_ok_new_synced:
  "flags v = None \<Longrightarrow> placed_ok p y flags \<Longrightarrow> placed_ok p (y @ [v]) (flags(v \<mapsto> r))"
  by (auto simp add: placed_ok_def)

lemma placed_ok_swap: "placed_ok [] y flags \<Longrightarrow> placed_ok y [] flags"
  by (simp add: placed_ok_def)

lemma placed_ok_moved:
  assumes "p' @ rev y' = p @ rev y" and "placed_ok p y flags"
  shows "placed_ok p' y' flags"
proof -
  have "distinct (p' @ rev y') = distinct (p @ rev y)" using assms(1) by simp
  then have d: "distinct (p' @ y') = distinct (p @ y)" by simp
  have "set (p' @ rev y') = set (p @ rev y)" using assms(1) by simp
  then have s: "set p' \<union> set y' = set p \<union> set y" by simp
  have "\<forall>v \<in> set p \<union> set y. flags v \<noteq> None"
    using assms(2) by (simp add: placed_ok_def ball_Un)
  then have "\<forall>v \<in> set p' \<union> set y'. flags v \<noteq> None"
    using s by simp
  then show ?thesis
    using d assms(2) by (simp add: placed_ok_def ball_Un del: distinct_append)
qed

lemma init_voters_ok: "init c s = Inr (s', a) \<Longrightarrow> voters_ok s \<Longrightarrow> voters_ok s'"
  by (auto simp add: init_def voters_ok_def Let_def default_election_def
      split: if_splits option.splits)

lemma inaugurate_voters_ok:
  "inaugurate c ttl dsc cnt t1 t2 t3 t4 cancel s = Inr (s', a) \<Longrightarrow> voters_ok s \<Longrightarrow> voters_ok s'"
  by (auto simp add: inaugurate_def voters_ok_def Let_def default_election_def
      split: if_splits option.splits)

lemma setballot_voters_ok: "setballot c b s = Inr (s', a) \<Longrightarrow> voters_ok s \<Longrightarrow> voters_ok s'"
  by (auto simp add: setballot_def voters_ok_def split: if_splits option.splits)

lemma endelection_body_voters_ok:
  "endelection_body c s = Inr (s', a) \<Longrightarrow> voters_ok s \<Longrightarrow> voters_ok s'"
  by (auto simp add: endelection_body_def voters_ok_def split: if_splits option.splits)

lemma nominate_body_voters_ok:
  "nominate_body c x y s = Inr (s', a) \<Longrightarrow> voters_ok s \<Longrightarrow> voters_ok s'"
  by (auto simp add: nominate_body_def voters_ok_def Let_def
      split: if_splits option.splits prod.splits)

lemma proclaim_body_voters_ok:
  "proclaim_body c x d s = Inr (s', a) \<Longrightarrow> voters_ok s \<Longrightarrow> voters_ok s'"
  by (auto simp add: proclaim_body_def voters_ok_def Let_def
      split: if_splits option.splits)

lemma nominf_body_voters_ok:
  "nominf_body c x nm dsc pic tg tw wc rm s = Inr (s', a) \<Longrightarrow> voters_ok s \<Longrightarrow> voters_ok s'"
  by (auto simp add: nominf_body_def voters_ok_def Let_def
      split: if_splits option.splits)

lemma regvoter_voters_ok:
  assumes "regvoter c v s = Inr (s', a)" and "voters_ok s"
  shows "voters_ok s'"
proof -
  obtain e where e: "elections s = Some e"
    using assms(1) by (auto simp add: regvoter_def split: if_splits option.splits)
  have ok: "placed_ok (voter e) (synced_voter e) (reggedvoters s)"
    using assms(2) e by (simp add: voters_ok_def)
  show ?thesis
  proof (cases "reggedvoters s v = None")
    case True
    note pend = placed_ok_new_pending [OF True ok]
    note sync = placed_ok_new_synced [OF True ok]
    show ?thesis
      using assms(1) e True pend sync
      by (auto simp add: regvoter_def voters_ok_def split: if_splits)
  next
    case False
    then show ?thesis
      using assms e by (auto simp add: regvoter_def split: if_splits)
  qed
qed

lemma cleanup_voters_ok:
  assumes "cleanup c s = Inr (s', a)" and "voters_ok s"
  shows "voters_ok s'"
proof -
  obtain e where e: "elections s = Some e" and auth: "self c \<in> auths c"
    using assms(1) by (auto simp add: cleanup_def split: if_splits option.splits)
  have ok: "placed_ok (voter e) (synced_voter e) (reggedvoters s)"
    using assms(2) e by (simp add: voters_ok_def)
  show ?thesis
  proof (cases "synced_voter e \<noteq> [] \<and> voter e \<noteq> []")
    case True
    then have s': "s' = s\<lparr>nominees := [], nominations := [],
                       elections := Some (migrate_loop 0 (e\<lparr>nom_count := 0\<rparr>))\<rparr>"
      using assms(1) e auth by (simp add: cleanup_def)
    have "placed_ok (voter (migrate_loop 0 (e\<lparr>nom_count := 0\<rparr>)))
            (synced_voter (migrate_loop 0 (e\<lparr>nom_count := 0\<rparr>))) (reggedvoters s)"
      by (rule placed_ok_moved [OF _ ok]) (simp add: migrate_loop_voters)
    then show ?thesis by (simp add: s' voters_ok_def)
  next
    case False
    then show ?thesis
      using assms(1) e auth ok
      by (auto simp add: cleanup_def voters_ok_def Let_def split: if_splits
          intro: placed_ok_swap)
  qed
qed

lemma state_refresh_voters_ok:
  assumes "state_refresh c s = Inr (s', a)" and "voters_ok s"
  shows "voters_ok s'"
proof -
  obtain e where e: "elections s = Some e"
    using assms(1) by (auto simp add: state_refresh_def split: option.splits)
  have ok: "placed_ok (voter e) (synced_voter e) (reggedvoters s)"
    using assms(2) e by (simp add: voters_ok_def)
  consider (voting) "state e = 4" "vote_close e \<le> now c" | (cleanup) "state e = 6"
    | (other) "state e \<noteq> 6" "\<not> (state e = 4 \<and> vote_close e \<le> now c)"
    by blast
  then show ?thesis
  proof cases
    case voting
    then have s': "s' = s\<lparr>elections := Some ((fst (sync_loop 0 e))\<lparr>state := 5\<rparr>)\<rparr>
               \<or> s' = s\<lparr>elections := Some (fst (sync_loop 0 e))\<rparr>"
      using assms(1) e
      by (cases "sync_loop 0 e") (auto simp add: state_refresh_def split: if_splits)
    have "placed_ok (voter (fst (sync_loop 0 e))) (synced_voter (fst (sync_loop 0 e)))
            (reggedvoters s)"
      by (rule placed_ok_moved [OF _ ok]) (simp add: sync_loop_voters)
    then show ?thesis using s' by (auto simp add: voters_ok_def)
  next
    case cleanup
    then have "cleanup c s = Inr (s', a)"
      using assms(1) e by (simp add: state_refresh_def)
    then show ?thesis using assms(2) by (rule cleanup_voters_ok)
  next
    case other
    then show ?thesis
      using assms(1) e ok
      by (auto simp add: state_refresh_def voters_ok_def Let_def split: if_splits)
  qed
qed

lemma and_then_refresh_voters_ok:
  assumes "and_then r (state_refresh c) = Inr (s', acts)"
    and "\<And>s1 a1. r = Inr (s1, a1) \<Longrightarrow> voters_ok s1"
  shows "voters_ok s'"
  using assms
  by (auto simp add: and_then_def split: sum.splits prod.splits
      intro: state_refresh_voters_ok)

lemma exec_voters_ok:
  assumes "exec c a s = Inr (s', acts)" "voters_ok s"
  shows "voters_ok s'"
proof (cases a)
  case Init
  then show ?thesis using assms by (auto intro: init_voters_ok)
next
  case (Inaugurate x21 x22 x23 x24 x25 x26 x27 x28)
  then show ?thesis using assms by (auto intro: inaugurate_voters_ok)
next
  case (Nominate x31 x32)
  then show ?thesis using assms
    by (auto simp add: nominate_def intro: and_then_refresh_voters_ok nominate_body_voters_ok)
next
  case (Proclaim x41 x42)
  then show ?thesis using assms
    by (auto simp add: proclaim_def intro: and_then_refresh_voters_ok proclaim_body_voters_ok)
next
  case (Nominf x51 x52 x53 x54 x55 x56 x57 x58)
  then show ?thesis using assms
    by (auto simp add: nominf_def intro: and_then_refresh_voters_ok nominf_body_voters_ok)
next
  case Updtstate
  then show ?thesis using assms
    by (auto simp add: updtstate_def intro: state_refresh_voters_ok)
next
  case (Regvoter x7)
  then show ?thesis using assms by (auto intro: regvoter_voters_ok)
next
  case Endelection
  then show ?thesis using assms
    by (auto simp add: endelection_def intro: and_then_refresh_voters_ok
        endelection_body_voters_ok)
next
  case Cleanup
  then show ?thesis using assms by (auto intro: cleanup_voters_ok)
next
  case (Setballot x10)
  then show ?thesis using assms by (auto intro: setballot_voters_ok)
qed

lemma run_voters_ok: "voters_ok s \<Longrightarrow> voters_ok (run calls s)"
proof (induction calls arbitrary: s)
  case Nil
  then show ?case by simp
next
  case (Cons ca calls)
  obtain c a where ca: "ca = (c, a)" by (cases ca)
  have "voters_ok (commit (exec c a s) s)"
    using Cons.prems
    by (auto simp add: commit_def split: sum.splits prod.splits intro: exec_voters_ok)
  then show ?case using Cons.IH ca by simp
qed

text \<open>
  Claim C5. After every sequence of actions (\<^verbatim>\<open>regvoter\<close>, the synchronisation batches of
  the step function, the migration steps of \<^verbatim>\<open>cleanup\<close>, and every other public action, in
  any order, with any callers and times, failed calls included), started on the fresh
  contract or on the default record, no account is in both the pending and the synced list.
\<close>

theorem pending_synced_disjoint:
  assumes "s0 = fresh \<or> s0 = fresh\<lparr>elections := Some default_election\<rparr>"
    and "elections (run calls s0) = Some e"
  shows "set (voter e) \<inter> set (synced_voter e) = {}"
proof -
  have "voters_ok s0"
    using assms(1) by (auto simp add: voters_ok_def fresh_def default_election_def)
  then have "voters_ok (run calls s0)" by (rule run_voters_ok)
  then show ?thesis using assms(2) by (simp add: voters_ok_def placed_ok_def)
qed


lemma demo_run: "elections (run demo_calls fresh) = Some demo_final"
  by (simp add: demo_calls_def demo_final_def fresh_def operator_env_def user_env_def
      commit_def and_then_def inaugurate_def regvoter_def nominate_def nominate_body_def
      updtstate_def state_refresh_def emplace_nomination_def default_election_def
      created_election_def sync_loop_step sync_loop_stop name_oig_value Let_def)

theorem pending_synced_disjoint_witness:
  "elections (run demo_calls fresh) = Some demo_final
   \<and> voter demo_final = [] \<and> synced_voter demo_final = [8, 7, 9]
   \<and> set (voter demo_final) \<inter> set (synced_voter demo_final) = {}"
  using pending_synced_disjoint [of fresh demo_calls demo_final] demo_run
  by (simp add: demo_final_def)

subsection \<open>The nomination registry\<close>

lemma purge_eq:
  "purge rs count =
     (filter accepted rs, count - of_nat (length (filter (\<lambda>r. \<not> accepted r) rs)))"
  by (induction rs arbitrary: count) (auto simp add: algebra_simps)

lemma find_nomination_None_iff: "find_nomination k t = None \<longleftrightarrow> k \<notin> nominee ` set t"
  by (induction t) auto

lemma find_nomination_emplace:
  "find_nomination k (emplace_nomination r t) =
     (if nominee r = k then Some r else find_nomination k t)"
  unfolding emplace_nomination_def by (induction t) auto

lemma state_refresh_nominating:
  assumes "elections s = Some e" and "state e = 1 \<or> state e = 2"
  shows "\<exists>k acts. state_refresh c s = Inr (s\<lparr>elections := Some (e\<lparr>state := k\<rparr>)\<rparr>, acts)
           \<and> (k = 1 \<or> k = 2 \<or> k = 3) \<and> (now c < nmn_close e \<longrightarrow> k \<noteq> 3)"
proof -
  have same: "s\<lparr>elections := Some (e\<lparr>state := state e\<rparr>)\<rparr> = s"
    using assms(1) by (cases s) simp
  show ?thesis
  proof (cases "state e = 1")
    case True
    show ?thesis
    proof (cases "nmn_open e \<le> now c")
      case True
      then have "state_refresh c s = Inr (s\<lparr>elections := Some (e\<lparr>state := 2\<rparr>)\<rparr>, [])"
        using assms(1) \<open>state e = 1\<close> by (simp add: state_refresh_def)
      then show ?thesis by auto
    next
      case False
      then have "state_refresh c s = Inr (s\<lparr>elections := Some (e\<lparr>state := state e\<rparr>)\<rparr>, [])"
        using assms(1) \<open>state e = 1\<close> same by (simp add: state_refresh_def)
      then show ?thesis using \<open>state e = 1\<close> by auto
    qed
  next
    case False
    then have st: "state e = 2" using assms(2) by simp
    show ?thesis
    proof (cases "nmn_close e \<le> now c \<and> 2 \<le> length (ballot_options (nominations s))")
      case True
      then have "\<exists>acts. state_refresh c s = Inr (s\<lparr>elections := Some (e\<lparr>state := 3\<rparr>)\<rparr>, acts)"
        using assms(1) st by (simp add: state_refresh_def Let_def)
      then show ?thesis using True by auto
    next
      case False
      then have "state_refresh c s = Inr (s\<lparr>elections := Some (e\<lparr>state := state e\<rparr>)\<rparr>, [])"
        using assms(1) st same by (auto simp add: state_refresh_def Let_def)
      then show ?thesis using st by auto
    qed
  qed
qed

text \<open>What a successful nomination does: the purge when the count exceeds 200, the new
  row with its flag, the count, and the step function, which in states 1 and 2 changes the
  state at most.\<close>

lemma nominate_result:
  assumes "nominator \<in> auths c" and "elections s = Some e" and "state e = 1 \<or> state e = 2"
    and "find_nomination nmnee (nominations s) = None" and "nmnee \<in> accounts c"
  defines "count \<equiv> (if 200 < nom_count e
                     then nom_count e - of_nat (length (filter (\<lambda>r. \<not> accepted r) (nominations s)))
                     else nom_count e)"
  defines "row \<equiv> \<lparr>nominee = nmnee, accepted = (nominator = nmnee \<and> count < 150)\<rparr>"
  shows "\<exists>k acts. nominate c nominator nmnee s =
           Inr (s\<lparr>nominations :=
                    emplace_nomination row
                      (if 200 < nom_count e then filter accepted (nominations s)
                       else nominations s),
                  elections := Some (e\<lparr>nom_count := count + 1, state := k\<rparr>)\<rparr>, acts)
           \<and> (k = 1 \<or> k = 2 \<or> k = 3) \<and> (now c < nmn_close e \<longrightarrow> k \<noteq> 3)"
proof -
  define s1 where "s1 = s\<lparr>nominations :=
                    emplace_nomination row
                      (if 200 < nom_count e then filter accepted (nominations s)
                       else nominations s),
                  elections := Some (e\<lparr>nom_count := count + 1\<rparr>)\<rparr>"
  have st: "state e \<noteq> 0" "state e \<le> 2"
    using assms(3) by auto
  have body: "nominate_body c nominator nmnee s = Inr (s1, [])"
    using assms(1,2,4,5) st
    by (simp add: nominate_body_def purge_eq s1_def count_def row_def)
  have "elections s1 = Some (e\<lparr>nom_count := count + 1\<rparr>)"
    and "state (e\<lparr>nom_count := count + 1\<rparr>) = 1 \<or> state (e\<lparr>nom_count := count + 1\<rparr>) = 2"
    using assms(3) by (simp_all add: s1_def)
  from state_refresh_nominating [OF this, of c]
  obtain k acts where "state_refresh c s1 =
      Inr (s1\<lparr>elections := Some (e\<lparr>nom_count := count + 1, state := k\<rparr>)\<rparr>, acts)"
    and "k = 1 \<or> k = 2 \<or> k = 3" and "now c < nmn_close e \<longrightarrow> k \<noteq> 3"
    by auto
  then show ?thesis
    using body by (auto simp add: nominate_def and_then_def s1_def)
qed

text \<open>
  Claim C6. A nomination that passes the checks while the count exceeds 200 erases every
  unaccepted row, decrementing the count once for each, before it inserts the new row and
  increments the count. With 201 rows of which exactly 5 are accepted and the count at 201,
  the 196 unaccepted rows go, 6 rows remain and the count is 6.
\<close>

theorem nominate_purges_when_over_200:
  assumes "nominator \<in> auths c" and "elections s = Some e" and "state e = 1 \<or> state e = 2"
    and "find_nomination nmnee (nominations s) = None" and "nmnee \<in> accounts c"
    and "200 < nom_count e"
  shows "\<exists>s' e' acts.
           nominate c nominator nmnee s = Inr (s', acts) \<and> elections s' = Some e'
           \<and> nominations s' =
               emplace_nomination
                 \<lparr>nominee = nmnee,
                  accepted = (nominator = nmnee
                    \<and> nom_count e - of_nat (length (filter (\<lambda>r. \<not> accepted r) (nominations s)))
                        < 150)\<rparr>
                 (filter accepted (nominations s))
           \<and> nom_count e' =
               nom_count e - of_nat (length (filter (\<lambda>r. \<not> accepted r) (nominations s))) + 1
           \<and> (nom_count e = 201 \<and> length (nominations s) = 201
                \<and> length (filter accepted (nominations s)) = 5
              \<longrightarrow> length (filter (\<lambda>r. \<not> accepted r) (nominations s)) = 196
                  \<and> length (nominations s') = 6 \<and> nom_count e' = 6)"
proof -
  have "length (filter accepted (nominations s))
          + length (filter (\<lambda>r. \<not> accepted r) (nominations s)) = length (nominations s)"
    by (rule sum_length_filter_compl)
  then have n196: "length (nominations s) = 201 \<Longrightarrow> length (filter accepted (nominations s)) = 5
      \<Longrightarrow> length (filter (\<lambda>r. \<not> accepted r) (nominations s)) = 196"
    by arith
  show ?thesis
    using nominate_result [OF assms(1-5)] assms(6) n196
    by (auto simp add: emplace_nomination_def)
qed

lemma filter_less_upt: "length (filter (\<lambda>i. i < k) [m..<n]) = min k n - m"
  by (induction n) auto

lemma spam_accepted: "length (filter accepted spam_table) = 5"
  by (simp add: spam_table_def filter_map comp_def filter_less_upt)

lemma spam_new: "find_nomination 1000 spam_table = None"
proof -
  have "(of_nat i :: 64 word) \<noteq> 1000" if "i < 202" for i
  proof
    assume "(of_nat i :: 64 word) = 1000"
    then have "unat (of_nat i :: 64 word) = unat (1000 :: 64 word)" by simp
    then show False using that by (simp add: unat_of_nat)
  qed
  then show ?thesis
    by (auto simp add: find_nomination_None_iff spam_table_def)
qed

theorem nominate_purges_when_over_200_witness:
  "\<exists>s' e' acts.
     nominate (user_env 1000 1500) 1000 1000 spammed = Inr (s', acts)
     \<and> elections s' = Some e' \<and> length (nominations s') = 6 \<and> nom_count e' = 6
     \<and> length (filter (\<lambda>r. \<not> accepted r) spam_table) = 196"
  using nominate_purges_when_over_200
          [of 1000 "user_env 1000 1500" spammed "created_election\<lparr>state := 2, nom_count := 201\<rparr>"
              1000]
        spam_accepted spam_new
  by (auto simp add: spammed_def user_env_def created_election_def spam_table_def)


lemma word8_of_nat_less: "k < 256 \<Longrightarrow> j < 256 \<Longrightarrow> (of_nat k :: 8 word) < of_nat j \<longleftrightarrow> k < j"
  by (simp add: word_less_nat_alt unat_of_nat)

lemma count_small:
  assumes "k \<le> 200"
  shows "\<not> 200 < (of_nat k :: 8 word)" and "(of_nat k :: 8 word) < 150 \<longleftrightarrow> k < 150"
  using assms word8_of_nat_less [of 200 k] word8_of_nat_less [of k 150]
  by simp_all

lemma self_nominations_run:
  assumes "elections s = Some e" and "state e = 1 \<or> state e = 2" and "now c < nmn_close e"
    and "nom_count e = of_nat k" and "k + length ns \<le> 201"
    and "distinct ns" and "set ns \<subseteq> accounts c"
    and "\<forall>n \<in> set ns. find_nomination n (nominations s) = None"
  shows "\<exists>e'. elections (run (self_nominations c ns) s) = Some e'
           \<and> (state e' = 1 \<or> state e' = 2) \<and> nmn_close e' = nmn_close e
           \<and> nom_count e' = of_nat (k + length ns)
           \<and> (\<forall>j < length ns.
                 find_nomination (ns ! j) (nominations (run (self_nominations c ns) s))
                   = Some \<lparr>nominee = ns ! j, accepted = (k + j < 150)\<rparr>)
           \<and> (\<forall>m. m \<notin> set ns \<longrightarrow>
                 find_nomination m (nominations (run (self_nominations c ns) s))
                   = find_nomination m (nominations s))"
  using assms
proof (induction ns arbitrary: s e k)
  case Nil
  then show ?case by (simp add: self_nominations_def)
next
  case (Cons n ns)
  let ?c = "c\<lparr>auths := {n}\<rparr>"
  let ?row = "\<lparr>nominee = n, accepted = (k < 150)\<rparr>"
  have k: "k \<le> 200" using Cons.prems(5) by simp
  have "n \<in> auths ?c" "n \<in> accounts ?c" "find_nomination n (nominations s) = None"
    using Cons.prems(7,8) by simp_all
  from nominate_result [OF this(1) Cons.prems(1,2) this(3,2)]
  obtain st acts where nom: "nominate ?c n n s =
      Inr (s\<lparr>nominations := emplace_nomination ?row (nominations s),
             elections := Some (e\<lparr>nom_count := of_nat k + 1, state := st\<rparr>)\<rparr>, acts)"
    and st: "st = 1 \<or> st = 2"
    using Cons.prems(3,4) count_small [OF k] by auto
  define s1 where "s1 = s\<lparr>nominations := emplace_nomination ?row (nominations s),
             elections := Some (e\<lparr>nom_count := of_nat k + 1, state := st\<rparr>)\<rparr>"
  define e1 where "e1 = e\<lparr>nom_count := of_nat k + 1, state := st\<rparr>"
  have run: "run (self_nominations c (n # ns)) s = run (self_nominations c ns) s1"
    using nom by (simp add: self_nominations_def commit_def s1_def)
  have p1: "elections s1 = Some e1" by (simp add: s1_def e1_def)
  have p2: "state e1 = 1 \<or> state e1 = 2" using st by (simp add: e1_def)
  have p3: "now c < nmn_close e1" using Cons.prems(3) by (simp add: e1_def)
  have p4: "nom_count e1 = of_nat (Suc k)" by (simp add: e1_def)
  have p5: "Suc k + length ns \<le> 201" using Cons.prems(5) by simp
  have p6: "distinct ns" and p7: "set ns \<subseteq> accounts c" and nn: "n \<notin> set ns"
    using Cons.prems(6,7) by simp_all
  have found: "find_nomination m (nominations s1)
                 = (if n = m then Some ?row else find_nomination m (nominations s))" for m
    by (simp add: s1_def find_nomination_emplace)
  have p8: "\<forall>m \<in> set ns. find_nomination m (nominations s1) = None"
    using Cons.prems(8) nn by (auto simp add: found)
  from Cons.IH [OF p1 p2 p3 p4 p5 p6 p7 p8]
  obtain e' where e': "elections (run (self_nominations c ns) s1) = Some e'"
      "state e' = 1 \<or> state e' = 2" "nmn_close e' = nmn_close e1"
      "nom_count e' = of_nat (Suc k + length ns)"
      "\<forall>j < length ns.
         find_nomination (ns ! j) (nominations (run (self_nominations c ns) s1))
           = Some \<lparr>nominee = ns ! j, accepted = (Suc k + j < 150)\<rparr>"
      "\<forall>m. m \<notin> set ns \<longrightarrow>
         find_nomination m (nominations (run (self_nominations c ns) s1))
           = find_nomination m (nominations s1)"
    by blast
  have a: "nmn_close e' = nmn_close e" using e'(3) by (simp add: e1_def)
  have b: "nom_count e' = of_nat (k + length (n # ns))" using e'(4) by simp
  have c: "find_nomination ((n # ns) ! j) (nominations (run (self_nominations c ns) s1))
             = Some \<lparr>nominee = (n # ns) ! j, accepted = (k + j < 150)\<rparr>"
    if "j < length (n # ns)" for j
  proof (cases j)
    case 0
    then show ?thesis using e'(6) nn by (simp add: found)
  next
    case (Suc j')
    then show ?thesis using e'(5) that by simp
  qed
  have d: "find_nomination m (nominations (run (self_nominations c ns) s1))
             = find_nomination m (nominations s)" if "m \<notin> set (n # ns)" for m
    using e'(6) that by (auto simp add: found)
  show ?case
    unfolding run using e'(1,2) a b c d by blast
qed


lemma candidates_distinct: "distinct candidates"
proof -
  have "inj_on (of_nat :: nat \<Rightarrow> 64 word) {1..<152}"
  proof (rule inj_onI)
    fix x y :: nat
    assume "x \<in> {1..<152}" "y \<in> {1..<152}" "(of_nat x :: 64 word) = of_nat y"
    then have "unat (of_nat x :: 64 word) = unat (of_nat y :: 64 word)" "x < 152" "y < 152"
      by simp_all
    then show "x = y" by (simp add: unat_of_nat)
  qed
  then show ?thesis by (simp add: candidates_def distinct_map)
qed

text \<open>
  Claim C7. A nomination that passes the checks creates its row with \<open>accepted = true\<close> if
  and only if the nominator is the nominee and the count, after the purge if there was one
  and before the insertion, is below 150. Starting from an empty registry with count 0,
  while nominations stay open, of 151 distinct existing accounts nominating themselves in
  turn the 150th is accepted and the 151st is not.
\<close>

theorem auto_accept_below_150:
  "(nominator \<in> auths c \<and> elections s = Some e \<and> (state e = 1 \<or> state e = 2)
      \<and> find_nomination nmnee (nominations s) = None \<and> nmnee \<in> accounts c
    \<longrightarrow> (\<exists>s' acts row.
           nominate c nominator nmnee s = Inr (s', acts)
           \<and> find_nomination nmnee (nominations s') = Some row
           \<and> (accepted row \<longleftrightarrow>
                nominator = nmnee
                \<and> (if 200 < nom_count e
                    then nom_count e
                           - of_nat (length (filter (\<lambda>r. \<not> accepted r) (nominations s)))
                    else nom_count e) < 150)))
   \<and> (elections s = Some e \<and> (state e = 1 \<or> state e = 2) \<and> now c < nmn_close e
      \<and> nominations s = [] \<and> nom_count e = 0
      \<and> distinct ns \<and> length ns = 151 \<and> set ns \<subseteq> accounts c
    \<longrightarrow> map_option accepted
          (find_nomination (ns ! 149) (nominations (run (self_nominations c ns) s)))
          = Some True
        \<and> map_option accepted
            (find_nomination (ns ! 150) (nominations (run (self_nominations c ns) s)))
            = Some False)"
proof (rule conjI; rule impI)
  assume a: "nominator \<in> auths c \<and> elections s = Some e \<and> (state e = 1 \<or> state e = 2)
      \<and> find_nomination nmnee (nominations s) = None \<and> nmnee \<in> accounts c"
  then have "nominator \<in> auths c" "elections s = Some e" "state e = 1 \<or> state e = 2"
    "find_nomination nmnee (nominations s) = None" "nmnee \<in> accounts c"
    by simp_all
  from nominate_result [OF this]
  show "\<exists>s' acts row.
           nominate c nominator nmnee s = Inr (s', acts)
           \<and> find_nomination nmnee (nominations s') = Some row
           \<and> (accepted row \<longleftrightarrow>
                nominator = nmnee
                \<and> (if 200 < nom_count e
                    then nom_count e
                           - of_nat (length (filter (\<lambda>r. \<not> accepted r) (nominations s)))
                    else nom_count e) < 150)"
    by (auto simp add: find_nomination_emplace)
next
  assume b: "elections s = Some e \<and> (state e = 1 \<or> state e = 2) \<and> now c < nmn_close e
      \<and> nominations s = [] \<and> nom_count e = 0
      \<and> distinct ns \<and> length ns = 151 \<and> set ns \<subseteq> accounts c"
  then have "elections s = Some e" "state e = 1 \<or> state e = 2" "now c < nmn_close e"
    "nom_count e = of_nat 0" "0 + length ns \<le> 201" "distinct ns" "set ns \<subseteq> accounts c"
    "\<forall>n \<in> set ns. find_nomination n (nominations s) = None"
    by simp_all
  from self_nominations_run [OF this]
  have all: "\<forall>j < length ns.
                 find_nomination (ns ! j) (nominations (run (self_nominations c ns) s))
                   = Some \<lparr>nominee = ns ! j, accepted = (0 + j < 150)\<rparr>"
    by blast
  have "149 < length ns" "150 < length ns" using b by simp_all
  then have "find_nomination (ns ! 149) (nominations (run (self_nominations c ns) s))
                   = Some \<lparr>nominee = ns ! 149, accepted = (0 + 149 < (150::nat))\<rparr>"
    and "find_nomination (ns ! 150) (nominations (run (self_nominations c ns) s))
                   = Some \<lparr>nominee = ns ! 150, accepted = (0 + 150 < (150::nat))\<rparr>"
    using all by blast+
  then show "map_option accepted
          (find_nomination (ns ! 149) (nominations (run (self_nominations c ns) s)))
          = Some True
        \<and> map_option accepted
            (find_nomination (ns ! 150) (nominations (run (self_nominations c ns) s)))
            = Some False"
    by simp
qed

theorem auto_accept_below_150_witness:
  "(\<exists>s' acts row.
      nominate (user_env 7 1500) 7 7 created = Inr (s', acts)
      \<and> find_nomination 7 (nominations s') = Some row \<and> accepted row)
   \<and> candidates ! 149 = 150 \<and> candidates ! 150 = 151
   \<and> map_option accepted
       (find_nomination 150
          (nominations (run (self_nominations (everyone_env 1500) candidates) created)))
       = Some True
   \<and> map_option accepted
       (find_nomination 151
          (nominations (run (self_nominations (everyone_env 1500) candidates) created)))
       = Some False"
proof -
  have i: "candidates ! 149 = 150" "candidates ! 150 = 151" "length candidates = 151"
    by (simp_all add: candidates_def)
  show ?thesis
    using auto_accept_below_150
            [of 7 "user_env 7 1500" created created_election 7 ]
          auto_accept_below_150
            [of 7 "everyone_env 1500" created created_election 7 candidates]
          candidates_distinct i
    by (simp add: user_env_def everyone_env_def created_def created_election_def fresh_def)
qed

subsection \<open>State 10 is never stored, and the cancelled election never leaves state 6\<close>

text \<open>No action writes state 10, so on no store reached from the fresh contract does
  \<^verbatim>\<open>init\<close> succeed.\<close>

lemma cleanup_state_ok:
  "cleanup c s = Inr (s', a) \<Longrightarrow> never_uninitialized s \<Longrightarrow> never_uninitialized s'"
  by (auto simp add: cleanup_def never_uninitialized_def migrate_loop_state Let_def
      split: if_splits option.splits)

lemma state_refresh_state_ok:
  assumes "state_refresh c s = Inr (s', a)" and "never_uninitialized s"
  shows "never_uninitialized s'"
proof (cases "elections s")
  case None
  then show ?thesis using assms by (simp add: state_refresh_def)
next
  case (Some e)
  show ?thesis
  proof (cases "state e = 6")
    case True
    then have "cleanup c s = Inr (s', a)"
      using assms(1) Some by (simp add: state_refresh_def)
    then show ?thesis using assms(2) by (rule cleanup_state_ok)
  next
    case False
    then show ?thesis
      using assms Some sync_loop_state [of 0 e]
      by (auto simp add: state_refresh_def never_uninitialized_def Let_def
          split: if_splits prod.splits)
  qed
qed

lemma and_then_refresh_state_ok:
  assumes "and_then r (state_refresh c) = Inr (s', acts)"
    and "\<And>s1 a1. r = Inr (s1, a1) \<Longrightarrow> never_uninitialized s1"
  shows "never_uninitialized s'"
  using assms
  by (auto simp add: and_then_def split: sum.splits prod.splits
      intro: state_refresh_state_ok)

lemma exec_state_ok:
  assumes "exec c a s = Inr (s', acts)" and "never_uninitialized s"
  shows "never_uninitialized s'"
proof (cases a)
  case Init
  then show ?thesis using assms
    by (auto simp add: init_def never_uninitialized_def Let_def split: if_splits)
next
  case (Inaugurate x21 x22 x23 x24 x25 x26 x27 x28)
  then show ?thesis using assms
    by (auto simp add: inaugurate_def never_uninitialized_def Let_def split: if_splits)
next
  case (Nominate x31 x32)
  have "never_uninitialized s1" if "nominate_body c x31 x32 s = Inr (s1, a1)" for s1 a1
    using that assms(2)
    by (auto simp add: nominate_body_def never_uninitialized_def Let_def
        split: if_splits option.splits prod.splits)
  then show ?thesis using assms(1) Nominate
    by (auto simp add: nominate_def intro: and_then_refresh_state_ok)
next
  case (Proclaim x41 x42)
  have "never_uninitialized s1" if "proclaim_body c x41 x42 s = Inr (s1, a1)" for s1 a1
    using that assms(2)
    by (auto simp add: proclaim_body_def never_uninitialized_def
        split: if_splits option.splits)
  then show ?thesis using assms(1) Proclaim
    by (auto simp add: proclaim_def intro: and_then_refresh_state_ok)
next
  case (Nominf x51 x52 x53 x54 x55 x56 x57 x58)
  have "never_uninitialized s1"
    if "nominf_body c x51 x52 x53 x54 x55 x56 x57 x58 s = Inr (s1, a1)" for s1 a1
    using that assms(2)
    by (auto simp add: nominf_body_def never_uninitialized_def Let_def
        split: if_splits option.splits)
  then show ?thesis using assms(1) Nominf
    by (auto simp add: nominf_def intro: and_then_refresh_state_ok)
next
  case Updtstate
  then show ?thesis using assms
    by (auto simp add: updtstate_def intro: state_refresh_state_ok)
next
  case (Regvoter x7)
  then show ?thesis using assms
    by (auto simp add: regvoter_def never_uninitialized_def split: if_splits option.splits)
next
  case Endelection
  have "never_uninitialized s1" if "endelection_body c s = Inr (s1, a1)" for s1 a1
    using that assms(2)
    by (auto simp add: endelection_body_def never_uninitialized_def
        split: if_splits option.splits)
  then show ?thesis using assms(1) Endelection
    by (auto simp add: endelection_def intro: and_then_refresh_state_ok)
next
  case Cleanup
  then show ?thesis using assms by (auto intro: cleanup_state_ok)
next
  case (Setballot x10)
  then show ?thesis using assms
    by (auto simp add: setballot_def never_uninitialized_def split: if_splits option.splits)
qed

lemma run_state_ok: "never_uninitialized s \<Longrightarrow> never_uninitialized (run calls s)"
proof (induction calls arbitrary: s)
  case Nil
  then show ?case by simp
next
  case (Cons ca calls)
  obtain c a where ca: "ca = (c, a)" by (cases ca)
  have "never_uninitialized (commit (exec c a s) s)"
    using Cons.prems
    by (auto simp add: commit_def split: sum.splits prod.splits intro: exec_state_ok)
  then show ?case using Cons.IH ca by simp
qed

lemma init_never_succeeds: "init c (run calls fresh) \<noteq> Inr r"
proof -
  have "never_uninitialized fresh" by (simp add: never_uninitialized_def fresh_def)
  then have "never_uninitialized (run calls fresh)" by (rule run_state_ok)
  then have "\<not> (\<exists>e. elections (run calls fresh) = Some e \<and> state e = 10)"
    by (auto simp add: never_uninitialized_def)
  then show ?thesis using init_succeeds_iff [of c "run calls fresh"] by blast
qed

text \<open>The cancelled election of the example stays as it is under any number of calls of
  \<^verbatim>\<open>updtstate\<close> and \<^verbatim>\<open>cleanup\<close>, whoever calls, and refuses every new creation.\<close>

lemma cancelled_stuck:
  assumes "a = Updtstate \<or> a = Cleanup"
  shows "commit (exec c a cancelled) cancelled = cancelled"
  using assms
  by (auto simp add: commit_def updtstate_def state_refresh_def cleanup_def cancelled_def
      created_election_def fresh_def)

lemma cancelled_stuck_forever:
  "\<forall>ca \<in> set calls. snd ca = Updtstate \<or> snd ca = Cleanup \<Longrightarrow> run calls cancelled = cancelled"
proof (induction calls)
  case Nil
  then show ?case by simp
next
  case (Cons ca calls)
  obtain c a where ca: "ca = (c, a)" by (cases ca)
  then have "a = Updtstate \<or> a = Cleanup" using Cons.prems by simp
  then have "commit (exec c a cancelled) cancelled = cancelled" by (rule cancelled_stuck)
  then show ?case using Cons ca by simp
qed

lemma cancelled_blocks_creation:
  "inaugurate (operator_env t) ttl dsc cnt t1 t2 t3 t4 False cancelled
     = Inl (Check_failed ''Cleanup in progress.'')"
  by (simp add: inaugurate_def operator_env_def cancelled_def created_election_def fresh_def)

end
